theory Spec2Isabelle
  imports Main "HOL-Library.Word"
begin

section \<open>Data model of ConcurrentHashJoin\<close>

text \<open>
  The embedded program is \<^verbatim>\<open>Interpreters/ConcurrentHashJoin.cpp\<close>: a hash join
  sharded over \<open>slots\<close> independent \<^verbatim>\<open>HashJoin\<close> instances. Its functions are
  translated one by one. What they call in other files (blocks and columns, the
  expression compiler and its execution, filters, the size limits, the local join
  engine) is not among the sources: it is either a parameter of the model or a small
  definition marked as modelled from the spec.

  Exceptions are values of a sum type (\<open>Inl\<close> the exception); the three error codes
  the file declares come first, the others stand for failures inside the collaborators
  and for reads out of range.
\<close>

datatype ErrorCode =
    LOGICAL_ERROR
  | SET_SIZE_LIMIT_EXCEEDED
  | BAD_ARGUMENTS
  | NOT_FOUND_COLUMN_IN_BLOCK
  | ILLEGAL_TYPE_OF_COLUMN_FOR_FILTER
  | SIZES_OF_COLUMNS_DOESNT_MATCH
  | ILLEGAL_DIVISION
  | NULL_POINTER_DEREFERENCE
  | INDEX_OUT_OF_RANGE

datatype Exception = Exception (code: ErrorCode) (message: string)

text \<open>A cell of a column. The filter columns of the dispatch are \<open>UInt8\<close> columns.\<close>

datatype Field = Null | UInt8 "8 word" | UInt64 "64 word" | Int64 "64 word" | String string

type_synonym DataTypePtr = string

record ColumnWithTypeAndName =
  column :: "Field list"
  type :: DataTypePtr
  name :: string

text \<open>
  Modelled from the spec: \<^verbatim>\<open>Block\<close> is declared outside the file. A batch is an
  ordered sequence of named, typed columns; the model is the list of its columns in
  position order, with the four operations the file calls.
\<close>

type_synonym Block = "ColumnWithTypeAndName list"

text \<open>\<^verbatim>\<open>Block::operator bool\<close>: a block is true when it has at least one column.\<close>

definition Block_bool :: "Block \<Rightarrow> bool" where
  "Block_bool block = (block \<noteq> [])"

text \<open>\<^verbatim>\<open>Block::rows\<close>: the size of the first column, 0 for a block without columns.\<close>

definition rows :: "Block \<Rightarrow> nat" where
  "rows block = (case block of [] \<Rightarrow> 0 | c # _ \<Rightarrow> length (column c))"

text \<open>\<^verbatim>\<open>Block::findByName\<close>: the first column of that name, a null pointer when there is none.\<close>

definition findByName :: "Block \<Rightarrow> string \<Rightarrow> ColumnWithTypeAndName option" where
  "findByName block n = find (\<lambda>c. name c = n) block"

text \<open>\<^verbatim>\<open>Block::cloneEmpty\<close>: the same columns, without rows.\<close>

definition cloneEmpty :: "Block \<Rightarrow> Block" where
  "cloneEmpty block = map (\<lambda>c. c\<lparr>column := []\<rparr>) block"

text \<open>\<^verbatim>\<open>ExtraBlock\<close> holds one block; \<^verbatim>\<open>empty()\<close> is \<^verbatim>\<open>!block\<close>.\<close>

record ExtraBlock =
  block :: Block

definition ExtraBlock_empty :: "ExtraBlock \<Rightarrow> bool" where
  "ExtraBlock_empty e = (\<not> Block_bool (block e))"

subsection \<open>The join description\<close>

text \<open>
  \<^verbatim>\<open>ASTTableJoin::Kind\<close> and \<^verbatim>\<open>ASTTableJoin::Strictness\<close> (the constructors carry
  the name of their enumeration), and the parts of
  \<^verbatim>\<open>TableJoin\<close> the file reads: \<^verbatim>\<open>kind()\<close>, \<^verbatim>\<open>strictness()\<close>, \<^verbatim>\<open>getClauses()\<close>
  and \<^verbatim>\<open>sizeLimits()\<close>.
\<close>

datatype Kind = Kind_Inner | Kind_Left | Kind_Right | Kind_Full | Kind_Cross | Kind_Comma

datatype Strictness =
    Strictness_Unspecified | Strictness_RightAny | Strictness_Any | Strictness_All
  | Strictness_Asof | Strictness_Semi | Strictness_Anti

text \<open>Modelled from the spec: \<^verbatim>\<open>isRightOrFull\<close> is declared outside the file; it holds
  of the right and of the full outer join.\<close>

definition isRightOrFull :: "Kind \<Rightarrow> bool" where
  "isRightOrFull k = (k = Kind_Right \<or> k = Kind_Full)"

record JoinOnClause =
  key_names_left :: "string list"
  key_names_right :: "string list"

text \<open>The configured size limits, on rows and on bytes. A limit that is not configured
  is \<open>None\<close>.\<close>

record SizeLimits =
  max_rows :: "64 word option"
  max_bytes :: "64 word option"

record TableJoin =
  kind :: Kind
  strictness :: Strictness
  getClauses :: "JoinOnClause list"
  sizeLimits :: SizeLimits

subsection \<open>The local join engine\<close>

text \<open>
  Modelled from the spec: \<^verbatim>\<open>HashJoin\<close>, the local join engine, is a collaborator
  of the file, known by its interface only. Its state is the type parameter \<open>'hj\<close>
  and its operations are the fields of a record: the constructor, \<^verbatim>\<open>addJoinedBlock\<close>
  (a new state and a flag), \<^verbatim>\<open>joinBlock\<close> (which reads the state, rewrites the block
  it is given and may set the not-processed pointer), the two counters and
  \<^verbatim>\<open>alwaysReturnsEmptySet\<close>.
\<close>

record 'hj HashJoin_ops =
  hj_new :: "TableJoin \<Rightarrow> Block \<Rightarrow> bool \<Rightarrow> 'hj"
  hj_addJoinedBlock :: "'hj \<Rightarrow> Block \<Rightarrow> bool \<Rightarrow> 'hj \<times> bool"
  hj_joinBlock :: "'hj \<Rightarrow> Block \<Rightarrow> Block \<times> ExtraBlock option"
  hj_getTotalRowCount :: "'hj \<Rightarrow> 64 word"
  hj_getTotalByteCount :: "'hj \<Rightarrow> 64 word"
  hj_alwaysReturnsEmptySet :: "'hj \<Rightarrow> bool"

text \<open>
  \<^verbatim>\<open>InternalHashJoin\<close>: a mutex and the engine it guards. \<open>mutex\<close> is true while the
  calling thread holds the lock.
\<close>

record 'hj InternalHashJoin =
  mutex :: bool
  data :: 'hj

subsection \<open>The hash expression\<close>

text \<open>
  \<^verbatim>\<open>buildHashExpressionAction\<close> writes, for every \<open>i < slots\<close>, the text
  \<^verbatim>\<open>cityHash64(k1,...,kn)%slots=i\<close> and has it parsed and compiled. \<open>HashExpr ks n i\<close>
  is that expression: key column names, modulus and shard index.
\<close>

datatype HashExpr = HashExpr (expr_keys: "string list") (expr_modulus: nat) (expr_shard: nat)

record BlockDispatchControlData =
  hash_expression_actions :: "HashExpr list"
  hash_columns_names :: "string list"

record 'hj ConcurrentHashJoin =
  table_join :: TableJoin
  slots :: nat
  hash_joins :: "'hj InternalHashJoin list"
  dispatch_datas :: "BlockDispatchControlData list"
  totals :: Block

section \<open>Building the hash expression\<close>

text \<open>Decimal text of a \<^verbatim>\<open>size_t\<close>, as \<^verbatim>\<open>operator<<\<close> writes it.\<close>

definition digit_char :: "nat \<Rightarrow> char" where
  "digit_char d = char_of (48 + d)"

fun writeIntText :: "nat \<Rightarrow> string" where
  "writeIntText n =
     (if n < 10 then [digit_char n] else writeIntText (n div 10) @ [digit_char (n mod 10)])"

declare writeIntText.simps [simp del]

text \<open>The loops of \<^verbatim>\<open>buildHashExpressionAction\<close> that write a separator before every
  item but the first.\<close>

fun join_with :: "string \<Rightarrow> string list \<Rightarrow> string" where
  "join_with sep [] = []"
| "join_with sep [x] = x"
| "join_with sep (x # y # ys) = x @ sep @ join_with sep (y # ys)"

definition col_buf_str :: "string list \<Rightarrow> string" where
  "col_buf_str based_columns_names = join_with '','' based_columns_names"

definition write_buf_str :: "nat \<Rightarrow> string list \<Rightarrow> string" where
  "write_buf_str slots' based_columns_names =
     join_with '',''
       (map (\<lambda>i. ''cityHash64('' @ col_buf_str based_columns_names @ '')%''
                 @ writeIntText slots' @ ''='' @ writeIntText i) [0..<slots'])"

text \<open>
  Modelled from the spec: \<^verbatim>\<open>parseQuery\<close> and the expression compiler are outside the
  file, and the spec gives the construction of the routing function no failure of its
  own. The parser sees nothing but the written text, in which the key names stand
  unquoted between commas. It reads the arguments of \<^verbatim>\<open>cityHash64\<close> back from that
  text, one argument between two commas, so a key name that contains a comma is read
  as several arguments, and two key lists with the same text are the same to it.
\<close>

fun split_commas :: "string \<Rightarrow> string \<Rightarrow> string list" where
  "split_commas cur [] = [cur]"
| "split_commas cur (ch # rest) =
     (if ch = CHR '','' then cur # split_commas [] rest else split_commas (cur @ [ch]) rest)"

definition parse_arguments :: "string \<Rightarrow> string list" where
  "parse_arguments txt = (if txt = [] then [] else split_commas [] txt)"

definition parsed_key_names :: "string list \<Rightarrow> string list" where
  "parsed_key_names based_columns_names = parse_arguments (col_buf_str based_columns_names)"

text \<open>
  The children of the parsed expression list: the \<open>i\<close>-th child is the expression
  \<^verbatim>\<open>cityHash64(...)%slots=i\<close> of the text above, on the arguments read back from it.
\<close>

definition func_ast_children :: "nat \<Rightarrow> string list \<Rightarrow> HashExpr list" where
  "func_ast_children slots' based_columns_names =
     map (\<lambda>i. HashExpr (parsed_key_names based_columns_names) slots' i) [0..<slots']"

text \<open>A child written out in the syntax of the source's text.\<close>

definition write_child :: "HashExpr \<Rightarrow> string" where
  "write_child e =
     ''cityHash64('' @ join_with '','' (expr_keys e) @ '')%''
       @ writeIntText (expr_modulus e) @ ''='' @ writeIntText (expr_shard e)"

text \<open>Modelled from the spec: \<^verbatim>\<open>IAST::getColumnName\<close> is outside the file. It gives the
  name under which the computed column is read back: the canonical text of the
  expression, which tells the children apart by modulus and shard index.\<close>

definition getColumnName :: "HashExpr \<Rightarrow> string" where
  "getColumnName e =
     ''equals(modulo(cityHash64('' @ join_with '', '' (expr_keys e) @ ''), ''
       @ writeIntText (expr_modulus e) @ ''), '' @ writeIntText (expr_shard e) @ '')''"

text \<open>
  \<^verbatim>\<open>buildHashExpressionAction\<close>: the compiled expressions and the names of the columns
  they produce. The sample block only gives the compiler the input columns.
\<close>

definition buildHashExpressionAction ::
    "nat \<Rightarrow> Block \<Rightarrow> string list \<Rightarrow> HashExpr list \<times> string list" where
  "buildHashExpressionAction slots' sample_block based_columns_names =
     (let children = func_ast_children slots' based_columns_names;
          hash_columns_names' = map getColumnName children
      in (children, hash_columns_names'))"

section \<open>Executing the hash expression on a block\<close>

text \<open>
  Modelled from the spec: the compiled expression is run by code outside the file. The
  value of \<^verbatim>\<open>cityHash64(k1,...,kn)%slots=i\<close> on one key tuple is a hash of the whole
  tuple, reduced modulo the number of slots and compared with \<open>i\<close>. The hash function
  itself is a parameter \<open>cityHash64 :: Field list \<Rightarrow> 64 word\<close>. On a block the
  expression is evaluated row by row on the cells of the key columns, which are looked
  up by name among the block's columns.
\<close>

definition eval_HashExpr :: "(Field list \<Rightarrow> 64 word) \<Rightarrow> HashExpr \<Rightarrow> Field list \<Rightarrow> Field" where
  "eval_HashExpr cityHash64 e V =
     UInt8 (if unat (cityHash64 V) mod expr_modulus e = expr_shard e then 1 else 0)"

fun lookup_columns :: "Block \<Rightarrow> string list \<Rightarrow> Exception + Field list list" where
  "lookup_columns blk [] = Inr []"
| "lookup_columns blk (k # ks) =
     (case findByName blk k of
        None \<Rightarrow> Inl (Exception NOT_FOUND_COLUMN_IN_BLOCK k)
      | Some c \<Rightarrow>
          (case lookup_columns blk ks of
             Inl x \<Rightarrow> Inl x
           | Inr cs \<Rightarrow> Inr (column c # cs)))"

definition execute_expr ::
    "(Field list \<Rightarrow> 64 word) \<Rightarrow> Block \<Rightarrow> nat \<Rightarrow> HashExpr \<Rightarrow> Exception + ColumnWithTypeAndName" where
  "execute_expr cityHash64 blk num_rows e =
     (case lookup_columns blk (expr_keys e) of
        Inl x \<Rightarrow> Inl x
      | Inr cols \<Rightarrow>
          if \<not> list_all (\<lambda>c. length c = num_rows) cols
          then Inl (Exception SIZES_OF_COLUMNS_DOESNT_MATCH ''key columns'')
          else if expr_modulus e = 0
          then Inl (Exception ILLEGAL_DIVISION ''Division by zero'')
          else Inr \<lparr>column = map (\<lambda>r. eval_HashExpr cityHash64 e (map (\<lambda>c. c ! r) cols)) [0..<num_rows],
                    type = ''UInt8'',
                    name = getColumnName e\<rparr>)"

fun execute_all ::
    "(Field list \<Rightarrow> 64 word) \<Rightarrow> Block \<Rightarrow> nat \<Rightarrow> HashExpr list \<Rightarrow> Exception + Block" where
  "execute_all cityHash64 blk num_rows [] = Inr []"
| "execute_all cityHash64 blk num_rows (e # es) =
     (case execute_expr cityHash64 blk num_rows e of
        Inl x \<Rightarrow> Inl x
      | Inr c \<Rightarrow>
          (case execute_all cityHash64 blk num_rows es of
             Inl x \<Rightarrow> Inl x
           | Inr cs \<Rightarrow> Inr (c # cs)))"

text \<open>
  Modelled from the spec: \<^verbatim>\<open>ExpressionActions::execute\<close> is not part of the file. The
  spec has the routing decision realised as derived columns and all original columns
  retained, so the computed columns are appended after the block's own.
\<close>

definition execute ::
    "(Field list \<Rightarrow> 64 word) \<Rightarrow> HashExpr list \<Rightarrow> Block \<Rightarrow> nat \<Rightarrow> Exception + Block" where
  "execute cityHash64 actions blk num_rows =
     (case execute_all cityHash64 blk num_rows actions of
        Inl x \<Rightarrow> Inl x
      | Inr cs \<Rightarrow> Inr (blk @ cs))"

section \<open>Dispatching a block\<close>

text \<open>Modelled from the spec: \<^verbatim>\<open>FilterDescription\<close> is outside the file. It reads a full
  column as a per-row mask: the bytes of a \<open>UInt8\<close> column.\<close>

fun filter_byte :: "Field \<Rightarrow> 8 word option" where
  "filter_byte (UInt8 w) = Some w"
| "filter_byte _ = None"

definition FilterDescription :: "Field list \<Rightarrow> Exception + 8 word list" where
  "FilterDescription col =
     (if list_all (\<lambda>v. filter_byte v \<noteq> None) col
      then Inr (map (\<lambda>v. the (filter_byte v)) col)
      else Inl (Exception ILLEGAL_TYPE_OF_COLUMN_FOR_FILTER ''Illegal type of column for filter''))"

definition countBytesInFilter :: "8 word list \<Rightarrow> nat" where
  "countBytesInFilter filt = length (filter (\<lambda>b. b \<noteq> 0) filt)"

text \<open>Modelled from the spec: \<^verbatim>\<open>IColumn::filter\<close> is outside the file. It is the
  column-wise selection by the mask: the cells whose filter byte is not zero, in order.
  The size hint only reserves memory.\<close>

definition IColumn_filter :: "Field list \<Rightarrow> 8 word list \<Rightarrow> nat \<Rightarrow> Exception + Field list" where
  "IColumn_filter col filt result_size_hint =
     (if length filt \<noteq> length col
      then Inl (Exception SIZES_OF_COLUMNS_DOESNT_MATCH ''Size of filter does not match size of column'')
      else Inr (map fst (filter (\<lambda>(v, b). b \<noteq> 0) (zip col filt))))"

text \<open>The inner loop of \<^verbatim>\<open>dispatchBlock\<close> over the positions \<open>i < header.columns()\<close>.\<close>

fun filter_columns :: "Block \<Rightarrow> 8 word list \<Rightarrow> nat \<Rightarrow> nat list \<Rightarrow> Exception + Block" where
  "filter_columns from_block filt hint [] = Inr []"
| "filter_columns from_block filt hint (i # is) =
     (if i \<ge> length from_block then Inl (Exception INDEX_OUT_OF_RANGE ''getByPosition'')
      else
       (let from_column = from_block ! i in
        case IColumn_filter (column from_column) filt hint of
          Inl x \<Rightarrow> Inl x
        | Inr filtered_column \<Rightarrow>
            (case filter_columns from_block filt hint is of
               Inl x \<Rightarrow> Inl x
             | Inr cs \<Rightarrow>
                 Inr (\<lparr>column = filtered_column, type = type from_column, name = name from_column\<rparr> # cs))))"

text \<open>The outer loop over \<open>hash_columns_names\<close>; every round appends one block.\<close>

fun dispatch_loop :: "Block \<Rightarrow> nat \<Rightarrow> string list \<Rightarrow> Block list \<Rightarrow> Exception + Block list" where
  "dispatch_loop from_block header_columns [] dispatched_blocks = Inr dispatched_blocks"
| "dispatch_loop from_block header_columns (filter_column_name # rest) dispatched_blocks =
     (case findByName from_block filter_column_name of
        None \<Rightarrow> Inl (Exception NULL_POINTER_DEREFERENCE filter_column_name)
      | Some c \<Rightarrow>
          (case FilterDescription (column c) of
             Inl x \<Rightarrow> Inl x
           | Inr filt \<Rightarrow>
               (case filter_columns from_block filt (countBytesInFilter filt) [0..<header_columns] of
                  Inl x \<Rightarrow> Inl x
                | Inr filtered_block_columns \<Rightarrow>
                    dispatch_loop from_block header_columns rest
                      (dispatched_blocks @ [filtered_block_columns]))))"

text \<open>
  \<^verbatim>\<open>dispatchBlock\<close> changes both reference arguments: \<open>from_block\<close> receives the
  computed columns and \<open>dispatched_blocks\<close> the new blocks. It returns the two.
\<close>

definition dispatchBlock ::
    "(Field list \<Rightarrow> 64 word) \<Rightarrow> BlockDispatchControlData \<Rightarrow> Block \<Rightarrow> Block list
      \<Rightarrow> Exception + Block \<times> Block list" where
  "dispatchBlock cityHash64 dispatch_data from_block dispatched_blocks =
     (let rows_before_filtration = rows from_block;
          header = cloneEmpty from_block
      in case execute cityHash64 (hash_expression_actions dispatch_data) from_block
                rows_before_filtration of
           Inl x \<Rightarrow> Inl x
         | Inr from_block' \<Rightarrow>
             (case dispatch_loop from_block' (length header) (hash_columns_names dispatch_data)
                     dispatched_blocks of
                Inl x \<Rightarrow> Inl x
              | Inr bs \<Rightarrow> Inr (from_block', bs)))"

section \<open>The coordinator\<close>

subsection \<open>Construction\<close>

text \<open>
  The constructor: the check of the slot count, one fresh engine per slot, and the two
  dispatch descriptions, the probe side's first and the build side's second.
  Reading \<^verbatim>\<open>getClauses()[0]\<close> of a join without clauses is out of range.
\<close>

definition ConcurrentHashJoin_new ::
    "'hj HashJoin_ops \<Rightarrow> TableJoin \<Rightarrow> nat \<Rightarrow> Block \<Rightarrow> Block \<Rightarrow> bool
      \<Rightarrow> Exception + 'hj ConcurrentHashJoin" where
  "ConcurrentHashJoin_new ops table_join0 slots0 left_sample_block right_sample_block
       any_take_last_row0 =
     (if slots0 = 0 then Inl (Exception BAD_ARGUMENTS ''Invalid argument slot : 0'')
      else
       (let hash_joins' =
              map (\<lambda>i. \<lparr>mutex = False,
                        data = hj_new ops table_join0 right_sample_block any_take_last_row0\<rparr>)
                [0..<slots0]
        in case getClauses table_join0 of
             [] \<Rightarrow> Inl (Exception INDEX_OUT_OF_RANGE ''getClauses()[0]'')
           | onexpr # _ \<Rightarrow>
               (let (left_actions, left_names) =
                      buildHashExpressionAction slots0 left_sample_block (key_names_left onexpr);
                    (right_actions, right_names) =
                      buildHashExpressionAction slots0 right_sample_block (key_names_right onexpr)
                in Inr \<lparr>table_join = table_join0,
                        slots = slots0,
                        hash_joins = hash_joins',
                        dispatch_datas =
                          [\<lparr>hash_expression_actions = left_actions,
                            hash_columns_names = left_names\<rparr>,
                           \<lparr>hash_expression_actions = right_actions,
                            hash_columns_names = right_names\<rparr>],
                        totals = []\<rparr>)))"

subsection \<open>Totals, counters and the non-joined rows\<close>

definition setTotals :: "'hj ConcurrentHashJoin \<Rightarrow> Block \<Rightarrow> 'hj ConcurrentHashJoin" where
  "setTotals c blk = (if Block_bool blk then c\<lparr>totals := blk\<rparr> else c)"

definition getTotals :: "'hj ConcurrentHashJoin \<Rightarrow> Block" where
  "getTotals c = totals c"

text \<open>The counters are \<^verbatim>\<open>size_t\<close> sums over the shards: addition wraps at \<open>2 ^ 64\<close>.\<close>

definition getTotalRowCount :: "'hj HashJoin_ops \<Rightarrow> 'hj ConcurrentHashJoin \<Rightarrow> 64 word" where
  "getTotalRowCount ops c =
     fold (\<lambda>hash_join res. res + hj_getTotalRowCount ops (data hash_join)) (hash_joins c) 0"

definition getTotalByteCount :: "'hj HashJoin_ops \<Rightarrow> 'hj ConcurrentHashJoin \<Rightarrow> 64 word" where
  "getTotalByteCount ops c =
     fold (\<lambda>hash_join res. res + hj_getTotalByteCount ops (data hash_join)) (hash_joins c) 0"

fun all_always_empty :: "'hj HashJoin_ops \<Rightarrow> 'hj InternalHashJoin list \<Rightarrow> bool" where
  "all_always_empty ops [] = True"
| "all_always_empty ops (hash_join # rest) =
     (if \<not> hj_alwaysReturnsEmptySet ops (data hash_join) then False
      else all_always_empty ops rest)"

definition alwaysReturnsEmptySet :: "'hj HashJoin_ops \<Rightarrow> 'hj ConcurrentHashJoin \<Rightarrow> bool" where
  "alwaysReturnsEmptySet ops c = all_always_empty ops (hash_joins c)"

text \<open>The result of \<^verbatim>\<open>getNonJoinedBlocks\<close> is a shared pointer to a
  \<^verbatim>\<open>NotJoinedBlocks\<close>; the empty pointer is \<open>None\<close>.\<close>

typedecl NotJoinedBlocks

definition getNonJoinedBlocks ::
    "'hj ConcurrentHashJoin \<Rightarrow> Block \<Rightarrow> Block \<Rightarrow> 64 word \<Rightarrow> Exception + NotJoinedBlocks option" where
  "getNonJoinedBlocks c left_sample_block result_sample_block max_block_size =
     (if strictness (table_join c) = Strictness_Asof \<or> strictness (table_join c) = Strictness_Semi
           \<or> \<not> isRightOrFull (kind (table_join c))
      then Inr None
      else Inl (Exception LOGICAL_ERROR ''Invalid join type. join kind: {}, strictness: {}''))"

subsection \<open>The probe path\<close>

text \<open>The first loop of \<^verbatim>\<open>joinBlock\<close>: every dispatched block is joined by the engine
  of its shard, and a not-processed block that is not empty is a logical error.\<close>

fun probe_shards ::
    "'hj HashJoin_ops \<Rightarrow> nat list \<Rightarrow> 'hj InternalHashJoin list \<Rightarrow> Block list
      \<Rightarrow> Exception + Block list" where
  "probe_shards ops [] hjs dispatched_blocks = Inr dispatched_blocks"
| "probe_shards ops (i # is) hjs dispatched_blocks =
     (if i \<ge> length hjs \<or> i \<ge> length dispatched_blocks
      then Inl (Exception INDEX_OUT_OF_RANGE ''hash_joins[i]'')
      else
       (let hash_join = hjs ! i;
            dispatched_block = dispatched_blocks ! i;
            (joined_block, none_extra_block) = hj_joinBlock ops (data hash_join) dispatched_block
        in if (case none_extra_block of None \<Rightarrow> False | Some e \<Rightarrow> \<not> ExtraBlock_empty e)
           then Inl (Exception LOGICAL_ERROR ''not_processed should be empty'')
           else probe_shards ops is hjs (dispatched_blocks[i := joined_block])))"

text \<open>The body of the loop over the positions of one block: a destination column is
  created when the position is new, and the source column is appended when it has rows.\<close>

definition append_column :: "Field list list \<Rightarrow> nat \<Rightarrow> ColumnWithTypeAndName \<Rightarrow> Field list list" where
  "append_column mutable_final_columns pos from_column =
     (let m = (if length mutable_final_columns \<le> pos
               then mutable_final_columns @ [[]] else mutable_final_columns)
      in if column from_column \<noteq> [] then m[pos := m ! pos @ column from_column] else m)"

fun append_block :: "Field list list \<Rightarrow> Block \<Rightarrow> nat list \<Rightarrow> Field list list" where
  "append_block mutable_final_columns dispatched_block [] = mutable_final_columns"
| "append_block mutable_final_columns dispatched_block (pos # ps) =
     append_block (append_column mutable_final_columns pos (dispatched_block ! pos))
       dispatched_block ps"

definition collect_columns :: "Block list \<Rightarrow> Field list list" where
  "collect_columns dispatched_blocks =
     fold (\<lambda>dispatched_block m. append_block m dispatched_block [0..<length dispatched_block])
       dispatched_blocks []"

definition getNamesAndTypesList :: "Block \<Rightarrow> (string \<times> DataTypePtr) list" where
  "getNamesAndTypesList blk = map (\<lambda>c. (name c, type c)) blk"

text \<open>The last loop: one result column per name and type of the first block.\<close>

definition final_columns_of :: "(string \<times> DataTypePtr) list \<Rightarrow> Field list list \<Rightarrow> Block" where
  "final_columns_of names_and_types mutable_final_columns =
     map (\<lambda>(i, name_and_type).
            \<lparr>column = mutable_final_columns ! i, type = snd name_and_type, name = fst name_and_type\<rparr>)
       (zip [0..<length names_and_types] names_and_types)"

text \<open>\<^verbatim>\<open>joinBlock\<close> returns the new value of its reference argument \<open>block\<close>.\<close>

definition joinBlock ::
    "'hj HashJoin_ops \<Rightarrow> (Field list \<Rightarrow> 64 word) \<Rightarrow> 'hj ConcurrentHashJoin \<Rightarrow> Block
      \<Rightarrow> Exception + Block" where
  "joinBlock ops cityHash64 c blk =
     (if length (dispatch_datas c) < 1 then Inl (Exception INDEX_OUT_OF_RANGE ''dispatch_datas[0]'')
      else
       (let dispatch_data = dispatch_datas c ! 0;
            cloned_block = blk
        in case dispatchBlock cityHash64 dispatch_data cloned_block [] of
             Inl x \<Rightarrow> Inl x
           | Inr (cloned_block', dispatched_blocks) \<Rightarrow>
               (case probe_shards ops [0..<length dispatched_blocks] (hash_joins c)
                       dispatched_blocks of
                  Inl x \<Rightarrow> Inl x
                | Inr joined_blocks \<Rightarrow>
                    (case joined_blocks of
                       [] \<Rightarrow> Inl (Exception INDEX_OUT_OF_RANGE ''dispatched_blocks[0]'')
                     | first_block # _ \<Rightarrow>
                         Inr (final_columns_of (getNamesAndTypesList first_block)
                                (collect_columns joined_blocks))))))"

subsection \<open>The build path\<close>

text \<open>
  Modelled from the spec: \<^verbatim>\<open>SizeLimits::check\<close> is not part of the file. By the spec,
  exceeding a configured limit fails with a size-limit error naming the operator and
  the current counts, and the check succeeds otherwise.
\<close>

definition SizeLimits_exceeded :: "SizeLimits \<Rightarrow> 64 word \<Rightarrow> 64 word \<Rightarrow> bool" where
  "SizeLimits_exceeded limits row_count byte_count =
     ((case max_rows limits of None \<Rightarrow> False | Some m \<Rightarrow> m < row_count)
      \<or> (case max_bytes limits of None \<Rightarrow> False | Some m \<Rightarrow> m < byte_count))"

definition SizeLimits_check ::
    "SizeLimits \<Rightarrow> 64 word \<Rightarrow> 64 word \<Rightarrow> string \<Rightarrow> ErrorCode \<Rightarrow> Exception + bool" where
  "SizeLimits_check limits row_count byte_count what exception_code =
     (if SizeLimits_exceeded limits row_count byte_count
      then Inl (Exception exception_code
                  (''Limit for '' @ what @ '' exceeded, rows: '' @ writeIntText (unat row_count)
                     @ '', bytes: '' @ writeIntText (unat byte_count)))
      else Inr True)"

text \<open>
  What the loop does to the mutexes and the engines is recorded as a trace: the shard
  index with the event. \<open>Inserted held\<close> records whether the mutex of the shard was held
  when its engine took the block.
\<close>

datatype ShardEvent = TryLockFailed | Locked | Inserted bool | Unlocked

text \<open>
  The success branch of the loop body: \<^verbatim>\<open>try_lock\<close> has taken the mutex, the engine
  inserts the block (its flag is dropped, as in the source) and \<^verbatim>\<open>unlock\<close> releases
  the mutex. The result is the shard and the events of the three steps.
\<close>

definition locked_insert_traced ::
    "'hj HashJoin_ops \<Rightarrow> 'hj InternalHashJoin \<Rightarrow> Block \<Rightarrow> bool
      \<Rightarrow> 'hj InternalHashJoin \<times> ShardEvent list" where
  "locked_insert_traced ops hash_join dispatched_block check_limits =
     (let locked = hash_join\<lparr>mutex := True\<rparr>;
          inserted = locked\<lparr>data :=
            fst (hj_addJoinedBlock ops (data locked) dispatched_block check_limits)\<rparr>;
          unlocked = inserted\<lparr>mutex := False\<rparr>
      in (unlocked, [Locked, Inserted (mutex locked), Unlocked]))"

text \<open>The shard after one such insertion.\<close>

definition locked_insert ::
    "'hj HashJoin_ops \<Rightarrow> 'hj InternalHashJoin \<Rightarrow> Block \<Rightarrow> bool \<Rightarrow> 'hj InternalHashJoin" where
  "locked_insert ops hash_join dispatched_block check_limits =
     fst (locked_insert_traced ops hash_join dispatched_block check_limits)"

text \<open>
  \<^verbatim>\<open>mutex.try_lock()\<close> does not block. It takes the mutex when no other thread holds it
  and the mutex is not locked already. What the other threads do is a schedule:
  \<open>try_lock t i\<close> tells whether they leave the mutex of shard \<open>i\<close> free at the \<open>t\<close>-th
  attempt of this call.
\<close>

definition try_lock_succeeds ::
    "(nat \<Rightarrow> nat \<Rightarrow> bool) \<Rightarrow> nat \<Rightarrow> nat \<Rightarrow> 'hj InternalHashJoin \<Rightarrow> bool" where
  "try_lock_succeeds try_lock t i hash_join = (try_lock t i \<and> \<not> mutex hash_join)"

text \<open>
  One pass of the \<^verbatim>\<open>for\<close> loop over the pending list: an index whose mutex is taken
  is served and erased, the others stay pending. The pass returns the number of
  attempts made so far, the indices still pending, the shards and the trace.
\<close>

fun scan_pending ::
    "'hj HashJoin_ops \<Rightarrow> (nat \<Rightarrow> nat \<Rightarrow> bool) \<Rightarrow> Block list \<Rightarrow> bool \<Rightarrow> nat \<Rightarrow> nat list
      \<Rightarrow> 'hj InternalHashJoin list \<Rightarrow> (nat \<times> ShardEvent) list
      \<Rightarrow> nat \<times> nat list \<times> 'hj InternalHashJoin list \<times> (nat \<times> ShardEvent) list" where
  "scan_pending ops try_lock dispatched_blocks check_limits t [] hjs trace = (t, [], hjs, trace)"
| "scan_pending ops try_lock dispatched_blocks check_limits t (i # rest) hjs trace =
     (if try_lock_succeeds try_lock t i (hjs ! i)
      then
       (case locked_insert_traced ops (hjs ! i) (dispatched_blocks ! i) check_limits of
          (hash_join', events) \<Rightarrow>
            scan_pending ops try_lock dispatched_blocks check_limits (Suc t) rest
              (hjs[i := hash_join']) (trace @ map (Pair i) events))
      else
       (case scan_pending ops try_lock dispatched_blocks check_limits (Suc t) rest hjs
               (trace @ [(i, TryLockFailed)]) of
          (t', pending', hjs', trace') \<Rightarrow> (t', i # pending', hjs', trace')))"

text \<open>The \<^verbatim>\<open>while\<close> loop: passes are repeated until nothing is pending. It need not
  end, so the result is an option; when it ends, the result is the pending list, the
  shards and the trace as the loop leaves them.\<close>

partial_function (option) insert_pending ::
    "'hj HashJoin_ops \<Rightarrow> (nat \<Rightarrow> nat \<Rightarrow> bool) \<Rightarrow> Block list \<Rightarrow> bool \<Rightarrow> nat \<Rightarrow> nat list
      \<Rightarrow> 'hj InternalHashJoin list \<Rightarrow> (nat \<times> ShardEvent) list
      \<Rightarrow> (nat list \<times> 'hj InternalHashJoin list \<times> (nat \<times> ShardEvent) list) option" where
  "insert_pending ops try_lock dispatched_blocks check_limits t pending_blocks hjs trace =
     (if pending_blocks = [] then Some (pending_blocks, hjs, trace)
      else
       (case scan_pending ops try_lock dispatched_blocks check_limits t pending_blocks hjs trace of
          (t', pending', hjs', trace') \<Rightarrow>
            insert_pending ops try_lock dispatched_blocks check_limits t' pending' hjs' trace'))"

declare insert_pending.simps [code]

text \<open>
  \<^verbatim>\<open>addJoinedBlock\<close>, with the trace of its loop: the coordinator as the call leaves
  it, either the exception or the flag, and the trace; \<open>None\<close> when the loop does not
  end. Every pending index is below the number of dispatched blocks, and
  \<^verbatim>\<open>hash_joins[i]\<close> is read for each of them in the first pass, so an index out of the
  range of \<open>hash_joins\<close> is met exactly when there are fewer shards than dispatched
  blocks.
\<close>

definition addJoinedBlock_traced ::
    "'hj HashJoin_ops \<Rightarrow> (Field list \<Rightarrow> 64 word) \<Rightarrow> (nat \<Rightarrow> nat \<Rightarrow> bool) \<Rightarrow> 'hj ConcurrentHashJoin
      \<Rightarrow> Block \<Rightarrow> bool
      \<Rightarrow> ('hj ConcurrentHashJoin \<times> (Exception + bool) \<times> (nat \<times> ShardEvent) list) option" where
  "addJoinedBlock_traced ops cityHash64 try_lock c blk check_limits =
     (if length (dispatch_datas c) < 2
      then Some (c, Inl (Exception INDEX_OUT_OF_RANGE ''dispatch_datas[1]''), [])
      else
       (let dispatch_data = dispatch_datas c ! 1;
            cloned_block = blk
        in case dispatchBlock cityHash64 dispatch_data cloned_block [] of
             Inl x \<Rightarrow> Some (c, Inl x, [])
           | Inr (cloned_block', dispatched_blocks) \<Rightarrow>
               if length (hash_joins c) < length dispatched_blocks
               then Some (c, Inl (Exception INDEX_OUT_OF_RANGE ''hash_joins[i]''), [])
               else
                (case insert_pending ops try_lock dispatched_blocks check_limits 0
                        [0..<length dispatched_blocks] (hash_joins c) [] of
                   None \<Rightarrow> None
                 | Some (pending_blocks, hjs', trace) \<Rightarrow>
                     (let c' = c\<lparr>hash_joins := hjs'\<rparr>
                      in if check_limits
                         then Some (c', SizeLimits_check (sizeLimits (table_join c'))
                                          (getTotalRowCount ops c') (getTotalByteCount ops c')
                                          ''JOIN'' SET_SIZE_LIMIT_EXCEEDED, trace)
                         else Some (c', Inr True, trace)))))"

text \<open>\<^verbatim>\<open>addJoinedBlock\<close> as its caller sees it: the coordinator and the outcome.\<close>

definition addJoinedBlock ::
    "'hj HashJoin_ops \<Rightarrow> (Field list \<Rightarrow> 64 word) \<Rightarrow> (nat \<Rightarrow> nat \<Rightarrow> bool) \<Rightarrow> 'hj ConcurrentHashJoin
      \<Rightarrow> Block \<Rightarrow> bool \<Rightarrow> ('hj ConcurrentHashJoin \<times> (Exception + bool)) option" where
  "addJoinedBlock ops cityHash64 try_lock c blk check_limits =
     (case addJoinedBlock_traced ops cityHash64 try_lock c blk check_limits of
        None \<Rightarrow> None
      | Some (c', r, trace) \<Rightarrow> Some (c', r))"

section \<open>Notions the properties are stated with\<close>

text \<open>Reading a decimal text back; it inverts \<open>writeIntText\<close>.\<close>

definition readIntText :: "string \<Rightarrow> nat" where
  "readIntText s = foldl (\<lambda>a ch. 10 * a + (of_char ch - 48)) 0 s"

text \<open>
  The routing function of a dispatch description on a key tuple: the shards whose
  filter expression is not zero on the tuple, in index order. \<^verbatim>\<open>dispatchBlock\<close> copies
  a row into the block of every such shard.
\<close>

definition routing_function ::
    "(Field list \<Rightarrow> 64 word) \<Rightarrow> BlockDispatchControlData \<Rightarrow> Field list \<Rightarrow> nat list" where
  "routing_function cityHash64 dispatch_data V =
     filter (\<lambda>s. eval_HashExpr cityHash64 (hash_expression_actions dispatch_data ! s) V \<noteq> UInt8 0)
       [0..<length (hash_expression_actions dispatch_data)]"

text \<open>The key tuple of row \<open>r\<close>: the cells of the key columns, looked up by name.\<close>

definition key_tuple :: "Block \<Rightarrow> string list \<Rightarrow> nat \<Rightarrow> Field list" where
  "key_tuple blk ks r =
     map (\<lambda>k. case findByName blk k of None \<Rightarrow> Null | Some c \<Rightarrow> column c ! r) ks"

text \<open>The block restricted to the rows \<open>rs\<close>, in that order; names and types are kept.\<close>

definition select_rows :: "Block \<Rightarrow> nat list \<Rightarrow> Block" where
  "select_rows blk rs = map (\<lambda>c. c\<lparr>column := map (\<lambda>r. column c ! r) rs\<rparr>) blk"

text \<open>The shard a row is routed to: the hash of its key tuple modulo the number of slots.\<close>

definition shard_of_row :: "(Field list \<Rightarrow> 64 word) \<Rightarrow> nat \<Rightarrow> Block \<Rightarrow> string list \<Rightarrow> nat \<Rightarrow> nat" where
  "shard_of_row cityHash64 n blk ks r = unat (cityHash64 (key_tuple blk ks r)) mod n"

text \<open>The filter column of shard \<open>s\<close>: one byte per row, 1 on the rows routed to \<open>s\<close>.\<close>

definition hash_column :: "(Field list \<Rightarrow> 64 word) \<Rightarrow> nat \<Rightarrow> Block \<Rightarrow> string list \<Rightarrow> nat \<Rightarrow> ColumnWithTypeAndName" where
  "hash_column cityHash64 n blk ks s =
     \<lparr>column = map (\<lambda>r. UInt8 (if shard_of_row cityHash64 n blk ks r = s then 1 else 0)) [0..<rows blk],
      type = ''UInt8'',
      name = getColumnName (HashExpr ks n s)\<rparr>"

text \<open>All columns of a block have the same number of rows.\<close>

definition well_formed_block :: "Block \<Rightarrow> bool" where
  "well_formed_block blk = list_all (\<lambda>c. length (column c) = rows blk) blk"

text \<open>The rows of a block routed to shard \<open>s\<close>, in their original order.\<close>

definition shard_block :: "(Field list \<Rightarrow> 64 word) \<Rightarrow> nat \<Rightarrow> Block \<Rightarrow> string list \<Rightarrow> nat \<Rightarrow> Block" where
  "shard_block cityHash64 n blk ks s =
     select_rows blk (filter (\<lambda>r. shard_of_row cityHash64 n blk ks r = s) [0..<rows blk])"

text \<open>The probe of shard \<open>i\<close> leaves a not-processed block that is not empty.\<close>

definition leftover_nonempty :: "'hj HashJoin_ops \<Rightarrow> 'hj InternalHashJoin list \<Rightarrow> Block list \<Rightarrow> nat \<Rightarrow> bool" where
  "leftover_nonempty ops hjs dispatched_blocks i =
     (case snd (hj_joinBlock ops (data (hjs ! i)) (dispatched_blocks ! i)) of
        None \<Rightarrow> False
      | Some e \<Rightarrow> \<not> ExtraBlock_empty e)"

text \<open>The per-shard output blocks: dispatched block \<open>i\<close> as the engine of shard \<open>i\<close> joins it.\<close>

definition shard_outputs :: "'hj HashJoin_ops \<Rightarrow> 'hj InternalHashJoin list \<Rightarrow> Block list \<Rightarrow> Block list" where
  "shard_outputs ops hjs dispatched_blocks =
     map (\<lambda>i. fst (hj_joinBlock ops (data (hjs ! i)) (dispatched_blocks ! i)))
       [0..<length dispatched_blocks]"

text \<open>Column \<open>p\<close> of the output blocks that have such a column, concatenated in
  shard order.\<close>

definition shard_column_concat :: "Block list \<Rightarrow> nat \<Rightarrow> Field list" where
  "shard_column_concat outs p = concat (map (\<lambda>b. column (b ! p)) (filter (\<lambda>b. p < length b) outs))"

text \<open>
  The shape every coordinator has after construction: at least one slot, one shard per
  slot, two dispatch descriptions, each with one filter column per slot.
\<close>

definition coordinator_invariant :: "'hj ConcurrentHashJoin \<Rightarrow> bool" where
  "coordinator_invariant c =
     (0 < slots c \<and> length (hash_joins c) = slots c \<and> length (dispatch_datas c) = 2
      \<and> list_all (\<lambda>dd. length (hash_columns_names dd) = slots c) (dispatch_datas c))"



text \<open>The shards that took a block, in the order of the trace.\<close>

fun inserted_shards :: "(nat \<times> ShardEvent) list \<Rightarrow> nat list" where
  "inserted_shards [] = []"
| "inserted_shards ((i, Inserted held) # rest) = i # inserted_shards rest"
| "inserted_shards (_ # rest) = inserted_shards rest"

text \<open>The trace without the attempts that failed.\<close>

definition lock_events :: "(nat \<times> ShardEvent) list \<Rightarrow> (nat \<times> ShardEvent) list" where
  "lock_events trace = filter (\<lambda>(i, e). e \<noteq> TryLockFailed) trace"

text \<open>One insertion made while holding the guard of shard \<open>i\<close>: the mutex is taken,
  the engine takes the block with the mutex held, the mutex is released.\<close>

definition guarded_insert :: "nat \<Rightarrow> (nat \<times> ShardEvent) list" where
  "guarded_insert i = [(i, Locked), (i, Inserted True), (i, Unlocked)]"

text \<open>A trace in which every event other than a failed attempt belongs to a guarded
  insertion: read without the failed attempts, it is the guarded insertions of the
  shards that took a block, one after the other. No engine takes a block outside its
  guard, and no guard is taken without an insertion and a release.\<close>

definition guarded_trace :: "(nat \<times> ShardEvent) list \<Rightarrow> bool" where
  "guarded_trace trace =
     (lock_events trace = concat (map guarded_insert (inserted_shards trace)))"

text \<open>
  The routing of row \<open>r\<close> of a block, read off the dispatch itself: the indices, in
  order, of the filter columns whose byte at row \<open>r\<close> is not zero, each filter found by
  its name in the block as \<^verbatim>\<open>dispatchBlock\<close> leaves it. These are the shards whose
  blocks receive the row. It depends on the key columns the expressions read and on
  the names the filters are read back by.
\<close>

fun shards_of_row :: "Block \<Rightarrow> string list \<Rightarrow> nat \<Rightarrow> nat \<Rightarrow> Exception + nat list" where
  "shards_of_row from_block [] s r = Inr []"
| "shards_of_row from_block (filter_column_name # rest) s r =
     (case findByName from_block filter_column_name of
        None \<Rightarrow> Inl (Exception NULL_POINTER_DEREFERENCE filter_column_name)
      | Some c \<Rightarrow>
          (case FilterDescription (column c) of
             Inl x \<Rightarrow> Inl x
           | Inr filt \<Rightarrow>
               (case shards_of_row from_block rest (Suc s) r of
                  Inl x \<Rightarrow> Inl x
                | Inr ss \<Rightarrow> Inr (if r < length filt \<and> filt ! r \<noteq> 0 then s # ss else ss))))"

definition row_routing ::
    "(Field list \<Rightarrow> 64 word) \<Rightarrow> BlockDispatchControlData \<Rightarrow> Block \<Rightarrow> nat \<Rightarrow> Exception + nat list" where
  "row_routing cityHash64 dispatch_data blk r =
     (case dispatchBlock cityHash64 dispatch_data blk [] of
        Inl x \<Rightarrow> Inl x
      | Inr (from_block', dispatched_blocks) \<Rightarrow>
          shards_of_row from_block' (hash_columns_names dispatch_data) 0 r)"

section \<open>Example instances\<close>

text \<open>A small engine that records the inserted blocks, a hash function that reads a
  single \<open>UInt64\<close> key, a join description with a limit of one row, and the
  coordinator the constructor builds for it with one slot; the concrete runs below use
  them.\<close>

definition example_engine :: "(Block list) HashJoin_ops" where
  "example_engine =
     \<lparr>hj_new = (\<lambda>tj sample any_take_last. []),
      hj_addJoinedBlock = (\<lambda>s b chk. (s @ [b], True)),
      hj_joinBlock = (\<lambda>s b. (b, None)),
      hj_getTotalRowCount = (\<lambda>s. word_of_nat (sum_list (map rows s))),
      hj_getTotalByteCount = (\<lambda>s. word_of_nat (8 * sum_list (map rows s))),
      hj_alwaysReturnsEmptySet = (\<lambda>s. s = [])\<rparr>"

definition example_hash :: "Field list \<Rightarrow> 64 word" where
  "example_hash V = (case V of [UInt64 w] \<Rightarrow> w | _ \<Rightarrow> 0)"

definition example_table_join :: "Kind \<Rightarrow> Strictness \<Rightarrow> TableJoin" where
  "example_table_join k s =
     \<lparr>kind = k, strictness = s,
      getClauses = [\<lparr>key_names_left = [''k''], key_names_right = [''k'']\<rparr>],
      sizeLimits = \<lparr>max_rows = Some 1, max_bytes = None\<rparr>\<rparr>"

definition example_join :: "Kind \<Rightarrow> Strictness \<Rightarrow> (Block list) ConcurrentHashJoin" where
  "example_join k s =
     \<lparr>table_join = example_table_join k s, slots = 1,
      hash_joins = [\<lparr>mutex = False, data = []\<rparr>],
      dispatch_datas =
        [\<lparr>hash_expression_actions = [HashExpr [''k''] 1 0],
          hash_columns_names = [''equals(modulo(cityHash64(k), 1), 0)'']\<rparr>,
         \<lparr>hash_expression_actions = [HashExpr [''k''] 1 0],
          hash_columns_names = [''equals(modulo(cityHash64(k), 1), 0)'']\<rparr>],
      totals = []\<rparr>"

definition example_totals :: Block where
  "example_totals = [\<lparr>column = [UInt64 7], type = ''UInt64'', name = ''total''\<rparr>]"

text \<open>The coordinator the constructor builds for two slots.\<close>

definition example_join2 :: "(Block list) ConcurrentHashJoin" where
  "example_join2 =
     \<lparr>table_join = example_table_join Kind_Inner Strictness_All, slots = 2,
      hash_joins = [\<lparr>mutex = False, data = []\<rparr>, \<lparr>mutex = False, data = []\<rparr>],
      dispatch_datas =
        [\<lparr>hash_expression_actions = [HashExpr [''k''] 2 0, HashExpr [''k''] 2 1],
          hash_columns_names = [''equals(modulo(cityHash64(k), 2), 0)'',
                                ''equals(modulo(cityHash64(k), 2), 1)'']\<rparr>,
         \<lparr>hash_expression_actions = [HashExpr [''k''] 2 0, HashExpr [''k''] 2 1],
          hash_columns_names = [''equals(modulo(cityHash64(k), 2), 0)'',
                                ''equals(modulo(cityHash64(k), 2), 1)'']\<rparr>],
      totals = []\<rparr>"

text \<open>A block of four rows, the dispatch description of two slots on its key column,
  and the two blocks it is dispatched into.\<close>

definition example_block :: Block where
  "example_block =
     [\<lparr>column = [UInt64 1, UInt64 2, UInt64 3, UInt64 4], type = ''UInt64'', name = ''k''\<rparr>,
      \<lparr>column = [String ''a'', String ''b'', String ''c'', String ''d''], type = ''String'', name = ''v''\<rparr>]"

definition example_dispatched :: "Block list" where
  "example_dispatched =
     [[\<lparr>column = [UInt64 2, UInt64 4], type = ''UInt64'', name = ''k''\<rparr>,
       \<lparr>column = [String ''b'', String ''d''], type = ''String'', name = ''v''\<rparr>],
      [\<lparr>column = [UInt64 1, UInt64 3], type = ''UInt64'', name = ''k''\<rparr>,
       \<lparr>column = [String ''a'', String ''c''], type = ''String'', name = ''v''\<rparr>]]"

definition example_dispatch_data :: BlockDispatchControlData where
  "example_dispatch_data =
     \<lparr>hash_expression_actions = fst (buildHashExpressionAction 2 [] [''k'']),
      hash_columns_names = snd (buildHashExpressionAction 2 [] [''k''])\<rparr>"

text \<open>An engine whose probe reports every block it is given as not processed, and the
  result of joining \<open>example_block\<close> with \<open>example_engine\<close> on two slots.\<close>

definition leftover_engine :: "(Block list) HashJoin_ops" where
  "leftover_engine = example_engine\<lparr>hj_joinBlock := (\<lambda>s b. (b, Some \<lparr>block = b\<rparr>))\<rparr>"

definition example_joined :: Block where
  "example_joined =
     [\<lparr>column = [UInt64 2, UInt64 4, UInt64 1, UInt64 3], type = ''UInt64'', name = ''k''\<rparr>,
      \<lparr>column = [String ''b'', String ''d'', String ''a'', String ''c''], type = ''String'', name = ''v''\<rparr>]"

text \<open>Two build blocks of one row each, and the coordinator after the first and after
  both have been inserted.\<close>

definition example_row1 :: Block where
  "example_row1 = [\<lparr>column = [UInt64 1], type = ''UInt64'', name = ''k''\<rparr>,
                   \<lparr>column = [String ''a''], type = ''String'', name = ''v''\<rparr>]"


definition example_after1 :: "(Block list) ConcurrentHashJoin" where
  "example_after1 = example_join2\<lparr>hash_joins :=
     [\<lparr>mutex = False, data = [cloneEmpty example_row1]\<rparr>,
      \<lparr>mutex = False, data = [example_row1]\<rparr>]\<rparr>"


text \<open>A join whose key column is called \<open>k\<close> on the left and \<open>id\<close> on the right, the
  coordinator the constructor builds for it with two slots, and a block of each side:
  row 0 of the left block and row 1 of the right block carry the key 5.\<close>

definition example_table_join_lr :: TableJoin where
  "example_table_join_lr =
     \<lparr>kind = Kind_Inner, strictness = Strictness_All,
      getClauses = [\<lparr>key_names_left = [''k''], key_names_right = [''id'']\<rparr>],
      sizeLimits = \<lparr>max_rows = None, max_bytes = None\<rparr>\<rparr>"

definition example_join_lr :: "(Block list) ConcurrentHashJoin" where
  "example_join_lr =
     \<lparr>table_join = example_table_join_lr, slots = 2,
      hash_joins = [\<lparr>mutex = False, data = []\<rparr>, \<lparr>mutex = False, data = []\<rparr>],
      dispatch_datas =
        [\<lparr>hash_expression_actions = [HashExpr [''k''] 2 0, HashExpr [''k''] 2 1],
          hash_columns_names = [''equals(modulo(cityHash64(k), 2), 0)'',
                                ''equals(modulo(cityHash64(k), 2), 1)'']\<rparr>,
         \<lparr>hash_expression_actions = [HashExpr [''id''] 2 0, HashExpr [''id''] 2 1],
          hash_columns_names = [''equals(modulo(cityHash64(id), 2), 0)'',
                                ''equals(modulo(cityHash64(id), 2), 1)'']\<rparr>],
      totals = []\<rparr>"

definition example_left :: Block where
  "example_left =
     [\<lparr>column = [UInt64 5, UInt64 2], type = ''UInt64'', name = ''k''\<rparr>,
      \<lparr>column = [String ''a'', String ''b''], type = ''String'', name = ''v''\<rparr>]"

definition example_right :: Block where
  "example_right =
     [\<lparr>column = [UInt64 9, UInt64 5], type = ''UInt64'', name = ''w''\<rparr>,
      \<lparr>column = [UInt64 2, UInt64 5], type = ''UInt64'', name = ''id''\<rparr>]"

section \<open>Properties\<close>

subsection \<open>Non-joined rows\<close>

text \<open>
  C7 (as the code has it). \<^verbatim>\<open>getNonJoinedBlocks\<close> returns the empty pointer, and no
  error, when the strictness is as-of or semi or the kind is neither right nor full.
  For every other combination, that is a right or full join that is neither semi nor
  as-of, it throws the logical error. It never returns a usable \<^verbatim>\<open>NotJoinedBlocks\<close>.
\<close>

theorem getNonJoinedBlocks_policy:
  "(strictness (table_join c) = Strictness_Asof \<or> strictness (table_join c) = Strictness_Semi
      \<or> \<not> isRightOrFull (kind (table_join c))
      \<longrightarrow> getNonJoinedBlocks c l r m = Inr None)
   \<and> (strictness (table_join c) \<noteq> Strictness_Asof \<and> strictness (table_join c) \<noteq> Strictness_Semi
        \<and> isRightOrFull (kind (table_join c))
      \<longrightarrow> getNonJoinedBlocks c l r m
            = Inl (Exception LOGICAL_ERROR ''Invalid join type. join kind: {}, strictness: {}''))
   \<and> (\<forall>p. getNonJoinedBlocks c l r m \<noteq> Inr (Some p))"
  by (simp add: getNonJoinedBlocks_def)

theorem getNonJoinedBlocks_policy_witness:
  "getNonJoinedBlocks (example_join Kind_Left Strictness_All) [] [] 0 = Inr None
   \<and> getNonJoinedBlocks (example_join Kind_Right Strictness_Semi) [] [] 0 = Inr None
   \<and> getNonJoinedBlocks (example_join Kind_Right Strictness_All) [] [] 0
       = Inl (Exception LOGICAL_ERROR ''Invalid join type. join kind: {}, strictness: {}'')"
  using getNonJoinedBlocks_policy [of "example_join Kind_Left Strictness_All" "[]" "[]" 0]
        getNonJoinedBlocks_policy [of "example_join Kind_Right Strictness_Semi" "[]" "[]" 0]
        getNonJoinedBlocks_policy [of "example_join Kind_Right Strictness_All" "[]" "[]" 0]
  by (simp add: example_join_def example_table_join_def isRightOrFull_def)

text \<open>
  C7 as the claim states it fails: for a full join of strictness all, which is right or
  full and neither semi nor as-of, the call throws the logical error instead of
  returning a usable capability.
\<close>

theorem getNonJoinedBlocks_full_counterexample:
  "isRightOrFull (kind (table_join (example_join Kind_Full Strictness_All)))
   \<and> strictness (table_join (example_join Kind_Full Strictness_All)) \<noteq> Strictness_Semi
   \<and> strictness (table_join (example_join Kind_Full Strictness_All)) \<noteq> Strictness_Asof
   \<and> getNonJoinedBlocks (example_join Kind_Full Strictness_All) [] [] 0
       = Inl (Exception LOGICAL_ERROR ''Invalid join type. join kind: {}, strictness: {}'')"
  by (simp add: getNonJoinedBlocks_def example_join_def example_table_join_def isRightOrFull_def)

subsection \<open>Totals\<close>

text \<open>
  C10. \<^verbatim>\<open>setTotals\<close> with an empty block (a block without columns, the one that
  converts to false) changes nothing, so \<^verbatim>\<open>getTotals\<close> still returns the stored value.
  Whatever the block, \<^verbatim>\<open>setTotals\<close> changes no field but the totals, and a block that
  has columns replaces them.
\<close>

theorem setTotals_empty_block:
  "setTotals c [] = c
   \<and> getTotals (setTotals c []) = getTotals c
   \<and> (\<forall>b. table_join (setTotals c b) = table_join c \<and> slots (setTotals c b) = slots c
          \<and> hash_joins (setTotals c b) = hash_joins c
          \<and> dispatch_datas (setTotals c b) = dispatch_datas c)
   \<and> (\<forall>b. b \<noteq> [] \<longrightarrow> getTotals (setTotals c b) = b)"
  by (simp add: setTotals_def getTotals_def Block_bool_def)

theorem setTotals_empty_block_witness:
  "getTotals (setTotals (example_join Kind_Inner Strictness_All) example_totals) = example_totals
   \<and> getTotals (setTotals (setTotals (example_join Kind_Inner Strictness_All) example_totals) [])
       = example_totals"
  using setTotals_empty_block [of "example_join Kind_Inner Strictness_All"]
        setTotals_empty_block [of "setTotals (example_join Kind_Inner Strictness_All) example_totals"]
  by (simp add: example_totals_def)

subsection \<open>Decimal text and column names\<close>

lemma of_char_digit_char: "d < 10 \<Longrightarrow> of_char (digit_char d) = (48 + d :: nat)"
  by (simp add: digit_char_def)

lemma readIntText_writeIntText: "readIntText (writeIntText n) = n"
proof (induction n rule: writeIntText.induct)
  case (1 n)
  show ?case
  proof (cases "n < 10")
    case True
    then show ?thesis
      by (simp add: writeIntText.simps [of n] readIntText_def of_char_digit_char)
  next
    case False
    with 1 have ih: "readIntText (writeIntText (n div 10)) = n div 10" by simp
    have "readIntText (writeIntText n) = 10 * readIntText (writeIntText (n div 10)) + n mod 10"
      using False by (simp add: writeIntText.simps [of n] readIntText_def of_char_digit_char)
    then show ?thesis using ih by simp
  qed
qed

lemma writeIntText_inj: "writeIntText i = writeIntText j \<Longrightarrow> i = j"
  by (metis readIntText_writeIntText)

lemma getColumnName_inj:
  "getColumnName (HashExpr ks n i) = getColumnName (HashExpr ks n j) \<Longrightarrow> i = j"
  by (simp add: getColumnName_def writeIntText_inj)

subsection \<open>The text of the hash expression\<close>

lemma split_commas_nonempty: "split_commas cur s \<noteq> []"
  by (induction s arbitrary: cur) simp_all

lemma join_with_Cons: "ys \<noteq> [] \<Longrightarrow> join_with sep (x # ys) = x @ sep @ join_with sep ys"
  by (cases ys) simp_all

lemma join_split_commas: "join_with '','' (split_commas cur s) = cur @ s"
  by (induction s arbitrary: cur) (simp_all add: join_with_Cons split_commas_nonempty)

lemma parse_arguments_text: "join_with '','' (parse_arguments txt) = txt"
  by (simp add: parse_arguments_def join_split_commas)

lemma parsed_key_names_text: "col_buf_str (parsed_key_names ks) = col_buf_str ks"
  by (simp add: parsed_key_names_def col_buf_str_def parse_arguments_text)

lemma write_buf_str_children:
  "write_buf_str n ks = join_with '','' (map write_child (func_ast_children n ks))"
  using parsed_key_names_text [of ks]
  by (simp add: write_buf_str_def func_ast_children_def write_child_def comp_def col_buf_str_def)

lemma buildHashExpressionAction_text:
  assumes "col_buf_str ks = col_buf_str ks'"
  shows "buildHashExpressionAction n sample ks = buildHashExpressionAction n sample' ks'"
  using assms
  by (simp add: buildHashExpressionAction_def func_ast_children_def parsed_key_names_def)

lemma buildHashExpressionAction_comma:
  "buildHashExpressionAction n sample [''a,b''] = buildHashExpressionAction n sample [''a'', ''b'']"
  by (rule buildHashExpressionAction_text) (simp add: col_buf_str_def)

lemma split_commas_name:
  "CHR '','' \<notin> set k \<Longrightarrow> split_commas cur (k @ rest) = split_commas (cur @ k) rest"
  by (induction k arbitrary: cur) auto

lemma split_commas_join:
  assumes "\<forall>k\<in>set ks. CHR '','' \<notin> set k" and "ks \<noteq> []"
  shows "split_commas cur (join_with '','' ks) = (cur @ hd ks) # tl ks"
  using assms
proof (induction ks arbitrary: cur)
  case Nil
  then show ?case by simp
next
  case (Cons x ks)
  then have x: "CHR '','' \<notin> set x" by simp
  show ?case
  proof (cases ks)
    case Nil
    then show ?thesis using split_commas_name [OF x, of cur "[]"] by simp
  next
    case (Cons y ys)
    with Cons.prems have rest: "\<forall>k\<in>set ks. CHR '','' \<notin> set k" and ne: "ks \<noteq> []" by simp_all
    have "split_commas cur (join_with '','' (x # ks))
          = split_commas (cur @ x) ('','' @ join_with '','' ks)"
      using split_commas_name [OF x] Cons by simp
    also have "\<dots> = (cur @ x) # split_commas [] (join_with '','' ks)" by simp
    also have "\<dots> = (cur @ x) # hd ks # tl ks" using Cons.IH [OF rest ne, of "[]"] by simp
    finally show ?thesis using ne by simp
  qed
qed

lemma parsed_key_names_id:
  assumes "\<forall>k\<in>set ks. CHR '','' \<notin> set k" and "ks \<noteq> [[]]"
  shows "parsed_key_names ks = ks"
proof (cases ks)
  case Nil
  then show ?thesis by (simp add: parsed_key_names_def col_buf_str_def parse_arguments_def)
next
  case (Cons k ks')
  have ne: "join_with '','' ks \<noteq> []"
  proof (cases ks')
    case Nil
    with Cons assms(2) show ?thesis by simp
  next
    case (Cons y ys)
    with \<open>ks = k # ks'\<close> show ?thesis by simp
  qed
  from split_commas_join [OF assms(1), of "[]"] Cons ne show ?thesis
    by (simp add: parsed_key_names_def col_buf_str_def parse_arguments_def)
qed

subsection \<open>Construction\<close>

lemma ConcurrentHashJoin_new_Inr:
  assumes "ConcurrentHashJoin_new ops tj n l r a = Inr c"
  shows "0 < n" and "slots c = n" and "table_join c = tj" and "totals c = []"
    and "hash_joins c = map (\<lambda>i. \<lparr>mutex = False, data = hj_new ops tj r a\<rparr>) [0..<n]"
    and "getClauses tj \<noteq> []"
    and "dispatch_datas c =
          [\<lparr>hash_expression_actions =
              fst (buildHashExpressionAction n l (key_names_left (hd (getClauses tj)))),
            hash_columns_names =
              snd (buildHashExpressionAction n l (key_names_left (hd (getClauses tj))))\<rparr>,
           \<lparr>hash_expression_actions =
              fst (buildHashExpressionAction n r (key_names_right (hd (getClauses tj)))),
            hash_columns_names =
              snd (buildHashExpressionAction n r (key_names_right (hd (getClauses tj))))\<rparr>]"
  using assms
  by (auto simp: ConcurrentHashJoin_new_def Let_def split: if_splits list.splits prod.splits)

lemma example_join_constructed:
  "ConcurrentHashJoin_new example_engine (example_table_join k s) 1 [] [] False
     = Inr (example_join k s)"
  by (simp add: ConcurrentHashJoin_new_def example_table_join_def example_join_def
      example_engine_def buildHashExpressionAction_def func_ast_children_def)
    code_simp

lemma example_join2_constructed:
  "ConcurrentHashJoin_new example_engine (example_table_join Kind_Inner Strictness_All) 2 [] [] False
     = Inr example_join2"
  by code_simp

subsection \<open>Routing\<close>

lemma filter_eq_upt: "k < n \<Longrightarrow> filter (\<lambda>s. k = s) [0..<n] = [k]"
proof (induction n)
  case 0
  then show ?case by simp
next
  case (Suc n)
  show ?case
  proof (cases "k < n")
    case True
    with Suc show ?thesis by simp
  next
    case False
    with Suc.prems have "k = n" by simp
    moreover have "filter (\<lambda>s. n = s) [0..<n] = []" by (simp add: filter_empty_conv)
    ultimately show ?thesis by simp
  qed
qed

lemma routing_function_build:
  assumes "0 < n"
  shows "routing_function h \<lparr>hash_expression_actions = fst (buildHashExpressionAction n sample ks),
            hash_columns_names = snd (buildHashExpressionAction n sample ks)\<rparr> V
         = [unat (h V) mod n]"
proof -
  have lt: "unat (h V) mod n < n" using assms by simp
  have "routing_function h \<lparr>hash_expression_actions = fst (buildHashExpressionAction n sample ks),
            hash_columns_names = snd (buildHashExpressionAction n sample ks)\<rparr> V
        = filter (\<lambda>s. unat (h V) mod n = s) [0..<n]"
    unfolding routing_function_def buildHashExpressionAction_def func_ast_children_def Let_def
    by (auto intro!: filter_cong simp: eval_HashExpr_def)
  then show ?thesis using filter_eq_upt [OF lt] by simp
qed

subsection \<open>Dispatch\<close>

lemma findByName_Some: "findByName blk k = Some c \<Longrightarrow> c \<in> set blk \<and> name c = k"
  by (auto simp: findByName_def find_Some_iff)

lemma findByName_present: "k \<in> name ` set blk \<Longrightarrow> \<exists>c. findByName blk k = Some c"
  by (cases "findByName blk k") (auto simp: findByName_def find_None_iff)

lemma lookup_columns_present:
  assumes "set ks \<subseteq> name ` set blk"
  shows "lookup_columns blk ks = Inr (map (\<lambda>k. column (the (findByName blk k))) ks)"
  using assms
proof (induction ks)
  case Nil
  then show ?case by simp
next
  case (Cons k ks)
  then obtain c where "findByName blk k = Some c"
    using findByName_present [of k blk] by auto
  with Cons show ?case by simp
qed

lemma key_tuple_present:
  assumes "set ks \<subseteq> name ` set blk"
  shows "map (\<lambda>c. c ! r) (map (\<lambda>k. column (the (findByName blk k))) ks) = key_tuple blk ks r"
  using assms
proof (induction ks)
  case Nil
  then show ?case by (simp add: key_tuple_def)
next
  case (Cons k ks)
  then obtain c where "findByName blk k = Some c"
    using findByName_present [of k blk] by auto
  with Cons show ?case by (simp add: key_tuple_def)
qed

lemma key_columns_length:
  assumes "set ks \<subseteq> name ` set blk" and "well_formed_block blk"
  shows "list_all (\<lambda>c. length c = rows blk) (map (\<lambda>k. column (the (findByName blk k))) ks)"
proof -
  have "length (column (the (findByName blk k))) = rows blk" if "k \<in> set ks" for k
  proof -
    from that assms(1) obtain c where c: "findByName blk k = Some c"
      using findByName_present [of k blk] by auto
    then have "c \<in> set blk" using findByName_Some by blast
    with assms(2) c show ?thesis by (simp add: well_formed_block_def list_all_iff)
  qed
  then show ?thesis by (simp add: list_all_iff)
qed

lemma execute_expr_hash_column:
  assumes "set ks \<subseteq> name ` set blk" and "well_formed_block blk" and "0 < n"
  shows "execute_expr h blk (rows blk) (HashExpr ks n s) = Inr (hash_column h n blk ks s)"
  using assms(3) key_columns_length [OF assms(1,2)]
  by (simp add: execute_expr_def lookup_columns_present [OF assms(1)] hash_column_def
      eval_HashExpr_def key_tuple_present [OF assms(1)] shard_of_row_def del: map_map)

lemma execute_all_hash_columns:
  assumes "set ks \<subseteq> name ` set blk" and "well_formed_block blk" and "0 < n"
  shows "execute_all h blk (rows blk) (map (HashExpr ks n) ss) = Inr (map (hash_column h n blk ks) ss)"
  by (induction ss) (simp_all add: execute_expr_hash_column [OF assms])

lemma find_map_inj:
  assumes "i \<in> set xs" and "\<And>j. j \<in> set xs \<Longrightarrow> g (f j) = g (f i) \<Longrightarrow> j = i"
  shows "find (\<lambda>c. g c = g (f i)) (map f xs) = Some (f i)"
  using assms
proof (induction xs)
  case Nil
  then show ?case by simp
next
  case (Cons x xs)
  show ?case
  proof (cases "x = i")
    case True
    then show ?thesis by simp
  next
    case False
    with Cons.prems have "i \<in> set xs" and "g (f x) \<noteq> g (f i)" by auto
    with Cons show ?thesis by simp
  qed
qed

lemma find_append_fresh:
  assumes "\<forall>x\<in>set xs. \<not> P x"
  shows "find P (xs @ ys) = find P ys"
  using assms by (induction xs) simp_all

lemma findByName_hash_column:
  assumes "s < n" and "name ` set blk \<inter> getColumnName ` HashExpr ks n ` {0..<n} = {}"
  shows "findByName (blk @ map (hash_column h n blk ks) [0..<n]) (getColumnName (HashExpr ks n s))
         = Some (hash_column h n blk ks s)"
proof -
  have fresh: "\<forall>c\<in>set blk. \<not> name c = getColumnName (HashExpr ks n s)"
    using assms by auto
  have nm: "getColumnName (HashExpr ks n s) = name (hash_column h n blk ks s)"
    by (simp add: hash_column_def)
  have "find (\<lambda>c. name c = name (hash_column h n blk ks s)) (map (hash_column h n blk ks) [0..<n])
        = Some (hash_column h n blk ks s)"
    using assms(1) by (intro find_map_inj) (auto simp: hash_column_def dest: getColumnName_inj)
  then show ?thesis
    unfolding findByName_def using find_append_fresh [OF fresh] by (simp add: nm)
qed

lemma FilterDescription_hash_column:
  "FilterDescription (column (hash_column h n blk ks s))
   = Inr (map (\<lambda>r. if shard_of_row h n blk ks r = s then 1 else 0) [0..<rows blk])"
  by (simp add: FilterDescription_def hash_column_def list_all_iff)

lemma filter_zip_nth:
  assumes "length col = m"
  shows "map fst (filter (\<lambda>(v, b). b \<noteq> 0) (zip col (map (\<lambda>r. if p r then 1 else (0::8 word)) [0..<m])))
         = map (\<lambda>r. col ! r) (filter p [0..<m])"
proof -
  have "zip col (map (\<lambda>r. if p r then 1 else (0::8 word)) [0..<m])
        = map (\<lambda>r. (col ! r, if p r then 1 else 0)) [0..<m]"
    using assms by (intro nth_equalityI) simp_all
  then show ?thesis
    by (simp add: filter_map comp_def case_prod_unfold)
qed

lemma IColumn_filter_mask:
  assumes "length col = m"
  shows "IColumn_filter col (map (\<lambda>r. if p r then 1 else 0) [0..<m]) hint
         = Inr (map (\<lambda>r. col ! r) (filter p [0..<m]))"
  using assms by (simp add: IColumn_filter_def filter_zip_nth)

lemma filter_columns_mask:
  assumes "well_formed_block blk" and "set is \<subseteq> {0..<length blk}"
  shows "filter_columns (blk @ extra) (map (\<lambda>r. if p r then 1 else 0) [0..<rows blk]) hint is
         = Inr (map (\<lambda>i. (blk ! i)\<lparr>column := map (\<lambda>r. column (blk ! i) ! r) (filter p [0..<rows blk])\<rparr>) is)"
  using assms(2)
proof (induction "is")
  case Nil
  then show ?case by simp
next
  case (Cons i "is")
  then have i: "i < length blk" by simp
  with assms(1) have len: "length (column (blk ! i)) = rows blk"
    by (simp add: well_formed_block_def list_all_length)
  from Cons have ih: "filter_columns (blk @ extra) (map (\<lambda>r. if p r then 1 else 0) [0..<rows blk]) hint is
         = Inr (map (\<lambda>i. (blk ! i)\<lparr>column := map (\<lambda>r. column (blk ! i) ! r) (filter p [0..<rows blk])\<rparr>) is)"
    by simp
  show ?case
    using i by (simp add: ih nth_append IColumn_filter_mask [OF len] Let_def)
qed

lemma filter_columns_select_rows:
  assumes "well_formed_block blk"
  shows "filter_columns (blk @ extra) (map (\<lambda>r. if p r then 1 else 0) [0..<rows blk]) hint
           [0..<length blk]
         = Inr (select_rows blk (filter p [0..<rows blk]))"
proof -
  have "map (\<lambda>i. (blk ! i)\<lparr>column := map (\<lambda>r. column (blk ! i) ! r) (filter p [0..<rows blk])\<rparr>)
          [0..<length blk]
        = select_rows blk (filter p [0..<rows blk])"
    unfolding select_rows_def by (intro nth_equalityI) simp_all
  with filter_columns_mask [OF assms, of "[0..<length blk]" extra p hint] show ?thesis by simp
qed

lemma dispatch_loop_hash_columns:
  assumes "well_formed_block blk"
    and "name ` set blk \<inter> getColumnName ` HashExpr ks n ` {0..<n} = {}"
    and "set ss \<subseteq> {0..<n}"
  shows "dispatch_loop (blk @ map (hash_column h n blk ks) [0..<n]) (length blk)
           (map (\<lambda>s. getColumnName (HashExpr ks n s)) ss) acc
         = Inr (acc @ map (shard_block h n blk ks) ss)"
  using assms(3)
proof (induction ss arbitrary: acc)
  case Nil
  then show ?case by simp
next
  case (Cons s ss)
  then have s: "s < n" by simp
  from Cons have ih: "\<And>acc. dispatch_loop (blk @ map (hash_column h n blk ks) [0..<n]) (length blk)
           (map (\<lambda>s. getColumnName (HashExpr ks n s)) ss) acc
         = Inr (acc @ map (shard_block h n blk ks) ss)"
    by simp
  show ?case
    by (simp add: findByName_hash_column [OF s assms(2)] FilterDescription_hash_column
        filter_columns_select_rows [OF assms(1)] ih shard_block_def)
qed

lemma buildHashExpressionAction_parsed:
  "fst (buildHashExpressionAction n sample ks) = map (HashExpr (parsed_key_names ks) n) [0..<n]"
  "snd (buildHashExpressionAction n sample ks)
     = map (\<lambda>s. getColumnName (HashExpr (parsed_key_names ks) n s)) [0..<n]"
  by (simp_all add: buildHashExpressionAction_def func_ast_children_def comp_def)

lemma dispatchBlock_build:
  assumes "0 < n"
    and "well_formed_block blk"
    and "set (parsed_key_names ks) \<subseteq> name ` set blk"
    and "name ` set blk \<inter> set (snd (buildHashExpressionAction n sample ks)) = {}"
  shows "dispatchBlock h \<lparr>hash_expression_actions = fst (buildHashExpressionAction n sample ks),
                           hash_columns_names = snd (buildHashExpressionAction n sample ks)\<rparr> blk acc
         = Inr (blk @ map (hash_column h n blk (parsed_key_names ks)) [0..<n],
                acc @ map (shard_block h n blk (parsed_key_names ks)) [0..<n])"
proof -
  have fresh: "name ` set blk \<inter> getColumnName ` HashExpr (parsed_key_names ks) n ` {0..<n} = {}"
    using assms(4) by (simp add: buildHashExpressionAction_parsed image_image)
  show ?thesis
    unfolding dispatchBlock_def Let_def
    by (simp add: buildHashExpressionAction_parsed execute_def
        execute_all_hash_columns [OF assms(3,2,1)]
        cloneEmpty_def dispatch_loop_hash_columns [OF assms(2) fresh])
qed

lemma select_rows_names_types:
  "map name (select_rows blk rs) = map name blk \<and> map type (select_rows blk rs) = map type blk"
  by (simp add: select_rows_def comp_def)

text \<open>
  C2. Let the dispatch description be the one built for \<open>n \<ge> 1\<close> slots and the key
  columns \<open>ks\<close>, and let \<open>blk\<close> be a block whose columns all have the same number of rows,
  which has the key columns as the hash expression reads them back from its text (the
  names \<open>ks\<close> themselves when none contains a comma), and none of whose columns bears
  the name of a filter column.
  Then \<^verbatim>\<open>dispatchBlock\<close> succeeds and produces exactly \<open>n\<close> blocks, in shard order. Every
  row is routed to exactly one shard, and that shard is below \<open>n\<close>. The block of shard
  \<open>s\<close> holds the rows routed to \<open>s\<close> and no others, in their original order, in all the
  columns of \<open>blk\<close> with their names and types. A block without rows gives \<open>n\<close> blocks
  that are present and empty.
\<close>

theorem dispatchBlock_partition:
  assumes "0 < n"
    and "well_formed_block blk"
    and "set (parsed_key_names ks) \<subseteq> name ` set blk"
    and "name ` set blk \<inter> set (snd (buildHashExpressionAction n sample ks)) = {}"
  shows "dispatchBlock h \<lparr>hash_expression_actions = fst (buildHashExpressionAction n sample ks),
                           hash_columns_names = snd (buildHashExpressionAction n sample ks)\<rparr> blk []
           = Inr (blk @ map (hash_column h n blk (parsed_key_names ks)) [0..<n], map (shard_block h n blk (parsed_key_names ks)) [0..<n])
     \<and> length (map (shard_block h n blk (parsed_key_names ks)) [0..<n]) = n
     \<and> (\<forall>r<rows blk. shard_of_row h n blk (parsed_key_names ks) r < n
            \<and> routing_function h \<lparr>hash_expression_actions = fst (buildHashExpressionAction n sample ks),
                  hash_columns_names = snd (buildHashExpressionAction n sample ks)\<rparr> (key_tuple blk (parsed_key_names ks) r)
                = [shard_of_row h n blk (parsed_key_names ks) r])
     \<and> (\<forall>s<n. shard_block h n blk (parsed_key_names ks) s
                 = select_rows blk (filter (\<lambda>r. shard_of_row h n blk (parsed_key_names ks) r = s) [0..<rows blk])
            \<and> map name (shard_block h n blk (parsed_key_names ks) s) = map name blk
            \<and> map type (shard_block h n blk (parsed_key_names ks) s) = map type blk)
     \<and> (rows blk = 0 \<longrightarrow> (\<forall>s<n. shard_block h n blk (parsed_key_names ks) s = cloneEmpty blk))"
proof -
  have "\<forall>s<n. shard_block h n blk (parsed_key_names ks) s
                 = select_rows blk (filter (\<lambda>r. shard_of_row h n blk (parsed_key_names ks) r = s) [0..<rows blk])
            \<and> map name (shard_block h n blk (parsed_key_names ks) s) = map name blk
            \<and> map type (shard_block h n blk (parsed_key_names ks) s) = map type blk"
    by (simp add: shard_block_def select_rows_names_types)
  moreover have "rows blk = 0 \<longrightarrow> (\<forall>s<n. shard_block h n blk (parsed_key_names ks) s = cloneEmpty blk)"
    by (simp add: shard_block_def select_rows_def cloneEmpty_def)
  moreover have "\<forall>r<rows blk. shard_of_row h n blk (parsed_key_names ks) r < n
            \<and> routing_function h \<lparr>hash_expression_actions = fst (buildHashExpressionAction n sample ks),
                  hash_columns_names = snd (buildHashExpressionAction n sample ks)\<rparr> (key_tuple blk (parsed_key_names ks) r)
                = [shard_of_row h n blk (parsed_key_names ks) r]"
    using assms(1) by (simp add: routing_function_build shard_of_row_def)
  moreover have "length (map (shard_block h n blk (parsed_key_names ks)) [0..<n]) = n" by simp
  moreover note dispatchBlock_build [OF assms, of h "[]", simplified]
  ultimately show ?thesis by blast
qed

theorem dispatchBlock_partition_witness:
  "dispatchBlock example_hash example_dispatch_data example_block []
     = Inr (example_block @ map (hash_column example_hash 2 example_block [''k'']) [0..<2],
            example_dispatched)
   \<and> dispatchBlock example_hash example_dispatch_data (cloneEmpty example_block) []
     = Inr (cloneEmpty example_block
              @ map (hash_column example_hash 2 (cloneEmpty example_block) [''k'']) [0..<2],
            [cloneEmpty example_block, cloneEmpty example_block])"
proof -
  have n: "0 < (2::nat)" by simp
  have wf: "well_formed_block example_block" by code_simp
  have pk: "parsed_key_names [''k''] = [''k'']" by code_simp
  have ks: "set (parsed_key_names [''k'']) \<subseteq> name ` set example_block" by code_simp
  have fresh: "name ` set example_block \<inter> set (snd (buildHashExpressionAction 2 [] [''k''])) = {}"
    by code_simp
  have wf0: "well_formed_block (cloneEmpty example_block)" by code_simp
  have ks0: "set (parsed_key_names [''k'']) \<subseteq> name ` set (cloneEmpty example_block)"
    by code_simp
  have fresh0: "name ` set (cloneEmpty example_block)
                  \<inter> set (snd (buildHashExpressionAction 2 [] [''k''])) = {}"
    by code_simp
  have r: "map (shard_block example_hash 2 example_block [''k'']) [0..<2] = example_dispatched"
    by code_simp
  have r0: "map (shard_block example_hash 2 (cloneEmpty example_block) [''k'']) [0..<2]
              = [cloneEmpty example_block, cloneEmpty example_block]"
    by code_simp
  show ?thesis
    using dispatchBlock_partition [OF n wf ks fresh, of example_hash]
          dispatchBlock_partition [OF n wf0 ks0 fresh0, of example_hash]
    unfolding example_dispatch_data_def pk r r0 by blast
qed

lemma dispatch_loop_acc:
  "dispatch_loop fb m names acc
     = (case dispatch_loop fb m names [] of Inl x \<Rightarrow> Inl x | Inr bs \<Rightarrow> Inr (acc @ bs))"
proof (induction names arbitrary: acc)
  case Nil
  then show ?case by simp
next
  case (Cons nm names)
  show ?case
    by (simp add: Cons.IH [of "acc @ [x]" for x] Cons.IH [of "[x]" for x]
        split: option.splits sum.splits)
qed

lemma dispatchBlock_acc:
  "dispatchBlock h dd blk acc
     = (case dispatchBlock h dd blk [] of Inl x \<Rightarrow> Inl x | Inr (fb, bs) \<Rightarrow> Inr (fb, acc @ bs))"
  unfolding dispatchBlock_def Let_def
  by (simp add: dispatch_loop_acc [of _ _ _ acc] split: sum.splits)

lemma dispatchBlock_from_block:
  assumes "dispatchBlock h dd blk acc = Inr (fb, bs)"
  shows "take (length blk) fb = blk"
  using assms unfolding dispatchBlock_def Let_def execute_def
  by (auto split: sum.splits)

text \<open>
  C9. \<^verbatim>\<open>dispatchBlock\<close> is a function of the description and the block alone: whatever
  the output vector holds, the call appends to it the blocks it produces for an empty
  vector. Hence a second call on the same block appends the very same blocks again.
  The only other thing it writes is its own block argument, which keeps its columns
  and receives the filter columns behind them.
\<close>

theorem dispatchBlock_deterministic:
  "dispatchBlock h dd blk acc
     = (case dispatchBlock h dd blk [] of Inl x \<Rightarrow> Inl x | Inr (fb, bs) \<Rightarrow> Inr (fb, acc @ bs))
   \<and> (dispatchBlock h dd blk [] = Inr (fb, bs)
        \<longrightarrow> dispatchBlock h dd blk bs = Inr (fb, bs @ bs) \<and> take (length blk) fb = blk)"
  using dispatchBlock_acc [of h dd blk acc] dispatchBlock_acc [of h dd blk bs]
    dispatchBlock_from_block [of h dd blk "[]" fb bs]
  by simp

theorem dispatchBlock_deterministic_witness:
  "dispatchBlock example_hash example_dispatch_data example_block example_dispatched
     = Inr (example_block @ map (hash_column example_hash 2 example_block [''k'']) [0..<2],
            example_dispatched @ example_dispatched)
   \<and> take (length example_block)
         (example_block @ map (hash_column example_hash 2 example_block [''k'']) [0..<2])
       = example_block"
proof -
  have "dispatchBlock example_hash example_dispatch_data example_block []
          = Inr (example_block @ map (hash_column example_hash 2 example_block [''k'']) [0..<2],
                 example_dispatched)"
    by code_simp
  with dispatchBlock_deterministic [of example_hash example_dispatch_data example_block "[]"
      "example_block @ map (hash_column example_hash 2 example_block [''k'']) [0..<2]"
      example_dispatched]
  show ?thesis by blast
qed

subsection \<open>Routing of the build side and of the probe side\<close>

lemma shards_of_row_hash_columns:
  assumes "name ` set blk \<inter> getColumnName ` HashExpr ks n ` {0..<n} = {}"
    and "r < rows blk"
  shows "shards_of_row (blk @ map (hash_column h n blk ks) [0..<n])
           (map (\<lambda>s. getColumnName (HashExpr ks n s)) [k..<n]) k r
         = Inr (filter (\<lambda>s. shard_of_row h n blk ks r = s) [k..<n])"
proof (induction "n - k" arbitrary: k)
  case 0
  then show ?case by simp
next
  case (Suc d)
  then have k: "k < n" and d: "d = n - Suc k" by simp_all
  have up: "[k..<n] = k # [Suc k..<n]" using k by (simp add: upt_conv_Cons)
  have bit: "map (\<lambda>r. if shard_of_row h n blk ks r = k then 1 else (0::8 word)) [0..<rows blk] ! r \<noteq> 0
             \<longleftrightarrow> shard_of_row h n blk ks r = k"
    using assms(2) by simp
  show ?case
    unfolding up
    using assms(2) bit
    by (simp add: findByName_hash_column [OF k assms(1)] FilterDescription_hash_column
        Suc.hyps(1) [OF d] del: upt_Suc)
qed

lemma row_routing_build:
  assumes "0 < n"
    and "well_formed_block blk"
    and "set (parsed_key_names ks) \<subseteq> name ` set blk"
    and "name ` set blk \<inter> set (snd (buildHashExpressionAction n sample ks)) = {}"
    and "r < rows blk"
  shows "row_routing h \<lparr>hash_expression_actions = fst (buildHashExpressionAction n sample ks),
                         hash_columns_names = snd (buildHashExpressionAction n sample ks)\<rparr> blk r
         = Inr [unat (h (key_tuple blk (parsed_key_names ks) r)) mod n]"
proof -
  have fresh: "name ` set blk \<inter> getColumnName ` HashExpr (parsed_key_names ks) n ` {0..<n} = {}"
    using assms(4) by (simp add: buildHashExpressionAction_parsed image_image)
  have lt: "shard_of_row h n blk (parsed_key_names ks) r < n"
    using assms(1) by (simp add: shard_of_row_def)
  have "row_routing h \<lparr>hash_expression_actions = fst (buildHashExpressionAction n sample ks),
                         hash_columns_names = snd (buildHashExpressionAction n sample ks)\<rparr> blk r
        = shards_of_row (blk @ map (hash_column h n blk (parsed_key_names ks)) [0..<n])
            (map (\<lambda>s. getColumnName (HashExpr (parsed_key_names ks) n s)) [0..<n]) 0 r"
    unfolding row_routing_def dispatchBlock_build [OF assms(1-4)]
    by (simp add: buildHashExpressionAction_parsed(2))
  also have "\<dots> = Inr (filter (\<lambda>s. shard_of_row h n blk (parsed_key_names ks) r = s) [0..<n])"
    by (rule shards_of_row_hash_columns [OF fresh assms(5)])
  also have "\<dots> = Inr [shard_of_row h n blk (parsed_key_names ks) r]"
    using filter_eq_upt [OF lt] by simp
  finally show ?thesis by (simp add: shard_of_row_def)
qed

text \<open>
  C1. Take a coordinator the constructor has built with \<open>n\<close> slots (so \<open>n \<ge> 1\<close>), a
  block of the probe side and a block of the build side, each with columns of equal
  length, with the key columns of its side as the hash expression reads them, and
  without a column that bears the name of a filter column of its side. The routing of
  a row is read off \<^verbatim>\<open>dispatchBlock\<close> itself: the expressions of the side are executed
  on the block, where they read the key columns by name, and the filters are found
  again by the names the description holds. If row \<open>j\<close> of the build block and row
  \<open>i\<close> of the probe block carry the same key tuple \<open>V\<close>, each in the key columns of its
  own side, then the build side (\<open>dispatch_datas[1]\<close>) and the probe side
  (\<open>dispatch_datas[0]\<close>) route the two rows to the same single shard, the hash of \<open>V\<close>
  modulo \<open>n\<close>, which is below \<open>n\<close>. The same holds of the two lists of compiled
  expressions evaluated on \<open>V\<close>.
\<close>

theorem routing_build_eq_probe:
  assumes "ConcurrentHashJoin_new ops tj n l r a = Inr c"
    and "well_formed_block bl"
    and "set (parsed_key_names (key_names_left (hd (getClauses tj)))) \<subseteq> name ` set bl"
    and "name ` set bl \<inter> set (hash_columns_names (dispatch_datas c ! 0)) = {}"
    and "i < rows bl"
    and "well_formed_block br"
    and "set (parsed_key_names (key_names_right (hd (getClauses tj)))) \<subseteq> name ` set br"
    and "name ` set br \<inter> set (hash_columns_names (dispatch_datas c ! 1)) = {}"
    and "j < rows br"
    and "key_tuple br (parsed_key_names (key_names_right (hd (getClauses tj)))) j = V"
    and "key_tuple bl (parsed_key_names (key_names_left (hd (getClauses tj)))) i = V"
  shows "row_routing h (dispatch_datas c ! 1) br j = row_routing h (dispatch_datas c ! 0) bl i
     \<and> row_routing h (dispatch_datas c ! 0) bl i = Inr [unat (h V) mod n]
     \<and> unat (h V) mod n < n
     \<and> routing_function h (dispatch_datas c ! 1) V = routing_function h (dispatch_datas c ! 0) V
     \<and> routing_function h (dispatch_datas c ! 0) V = [unat (h V) mod n]"
proof -
  note n = ConcurrentHashJoin_new_Inr(1) [OF assms(1)]
  note dd = ConcurrentHashJoin_new_Inr(7) [OF assms(1)]
  from assms(4) have fl: "name ` set bl
      \<inter> set (snd (buildHashExpressionAction n l (key_names_left (hd (getClauses tj))))) = {}"
    by (simp add: dd)
  from assms(8) have fr: "name ` set br
      \<inter> set (snd (buildHashExpressionAction n r (key_names_right (hd (getClauses tj))))) = {}"
    by (simp add: dd)
  have L: "row_routing h (dispatch_datas c ! 0) bl i = Inr [unat (h V) mod n]"
    using row_routing_build [OF n assms(2,3) fl assms(5), of h] assms(11) by (simp add: dd)
  have R: "row_routing h (dispatch_datas c ! 1) br j = Inr [unat (h V) mod n]"
    using row_routing_build [OF n assms(6,7) fr assms(9), of h] assms(10) by (simp add: dd)
  have T: "routing_function h (dispatch_datas c ! 1) V = [unat (h V) mod n]"
    "routing_function h (dispatch_datas c ! 0) V = [unat (h V) mod n]"
    using n by (simp_all add: dd routing_function_build)
  from L R T n show ?thesis by simp
qed

lemma example_join_lr_constructed:
  "ConcurrentHashJoin_new example_engine example_table_join_lr 2 [] [] False = Inr example_join_lr"
  by code_simp

theorem routing_build_eq_probe_witness:
  "row_routing example_hash (dispatch_datas example_join_lr ! 1) example_right 1
     = row_routing example_hash (dispatch_datas example_join_lr ! 0) example_left 0
   \<and> row_routing example_hash (dispatch_datas example_join_lr ! 0) example_left 0 = Inr [1]
   \<and> key_tuple example_right [''id''] 1 = [UInt64 5]
   \<and> key_tuple example_left [''k''] 0 = [UInt64 5]"
proof -
  have wl: "well_formed_block example_left" by code_simp
  have wr: "well_formed_block example_right" by code_simp
  have kl: "set (parsed_key_names (key_names_left (hd (getClauses example_table_join_lr))))
              \<subseteq> name ` set example_left" by code_simp
  have kr: "set (parsed_key_names (key_names_right (hd (getClauses example_table_join_lr))))
              \<subseteq> name ` set example_right" by code_simp
  have fl: "name ` set example_left \<inter> set (hash_columns_names (dispatch_datas example_join_lr ! 0)) = {}"
    by code_simp
  have fr: "name ` set example_right \<inter> set (hash_columns_names (dispatch_datas example_join_lr ! 1)) = {}"
    by code_simp
  have i: "0 < rows example_left" by code_simp
  have j: "1 < rows example_right" by code_simp
  have tr: "key_tuple example_right (parsed_key_names (key_names_right (hd (getClauses example_table_join_lr)))) 1
              = [UInt64 5]" by code_simp
  have tl: "key_tuple example_left (parsed_key_names (key_names_left (hd (getClauses example_table_join_lr)))) 0
              = [UInt64 5]" by code_simp
  have tr': "key_tuple example_right [''id''] 1 = [UInt64 5]" by code_simp
  have tl': "key_tuple example_left [''k''] 0 = [UInt64 5]" by code_simp
  have m: "unat (example_hash [UInt64 5]) mod 2 = 1" by (simp add: example_hash_def)
  from routing_build_eq_probe [OF example_join_lr_constructed wl kl fl i wr kr fr j tr tl, of example_hash]
    m tr' tl'
  show ?thesis by simp
qed

subsection \<open>The probe path\<close>

lemma dispatch_loop_length:
  "dispatch_loop fb m names acc = Inr res \<Longrightarrow> length res = length acc + length names"
  by (induction names arbitrary: acc) (auto split: option.splits sum.splits)

lemma dispatchBlock_length:
  "dispatchBlock h dd blk [] = Inr (fb, dbs) \<Longrightarrow> length dbs = length (hash_columns_names dd)"
  unfolding dispatchBlock_def Let_def
  by (auto split: sum.splits dest: dispatch_loop_length)

lemma coordinator_invariant_dispatch:
  assumes "coordinator_invariant c" and "k < 2"
    and "dispatchBlock h (dispatch_datas c ! k) blk [] = Inr (fb, dbs)"
  shows "length dbs = slots c" and "length dbs = length (hash_joins c)" and "dbs \<noteq> []"
proof -
  from assms(1,2) have "length (hash_columns_names (dispatch_datas c ! k)) = slots c"
    by (simp add: coordinator_invariant_def list_all_length)
  with dispatchBlock_length [OF assms(3)] show "length dbs = slots c" by simp
  with assms(1) show "length dbs = length (hash_joins c)" and "dbs \<noteq> []"
    by (auto simp: coordinator_invariant_def)
qed

lemma probe_shards_length:
  "probe_shards ops is hjs cur = Inr res \<Longrightarrow> length res = length cur"
  by (induction "is" arbitrary: cur) (auto simp: Let_def split: if_splits prod.splits)

lemma leftover_nonempty_update:
  "j \<noteq> i \<Longrightarrow> leftover_nonempty ops hjs (cur[i := x]) j = leftover_nonempty ops hjs cur j"
  by (simp add: leftover_nonempty_def)

lemma probe_shards_Inr:
  assumes "distinct is" and "set is \<subseteq> {0..<length cur}" and "length cur \<le> length hjs"
    and "\<forall>i\<in>set is. \<not> leftover_nonempty ops hjs cur i"
  shows "probe_shards ops is hjs cur
         = Inr (map (\<lambda>i. if i \<in> set is then fst (hj_joinBlock ops (data (hjs ! i)) (cur ! i))
                          else cur ! i) [0..<length cur])"
  using assms
proof (induction "is" arbitrary: cur)
  case Nil
  then show ?case by (simp add: map_nth)
next
  case (Cons i "is")
  obtain jb ex where jb: "hj_joinBlock ops (data (hjs ! i)) (cur ! i) = (jb, ex)"
    by (cases "hj_joinBlock ops (data (hjs ! i)) (cur ! i)")
  from Cons.prems have i: "i < length cur" "i < length hjs" "i \<notin> set is" by auto
  from Cons.prems jb have ok: "\<not> (case ex of None \<Rightarrow> False | Some e \<Rightarrow> \<not> ExtraBlock_empty e)"
    by (simp add: leftover_nonempty_def)
  have rest: "\<forall>j\<in>set is. \<not> leftover_nonempty ops hjs (cur[i := jb]) j"
  proof
    fix j assume j: "j \<in> set is"
    with i have "j \<noteq> i" by auto
    with j Cons.prems show "\<not> leftover_nonempty ops hjs (cur[i := jb]) j"
      by (simp add: leftover_nonempty_update)
  qed
  have ih: "probe_shards ops is hjs (cur[i := jb])
         = Inr (map (\<lambda>j. if j \<in> set is then fst (hj_joinBlock ops (data (hjs ! j)) (cur[i := jb] ! j))
                          else cur[i := jb] ! j) [0..<length (cur[i := jb])])"
    using Cons.IH [of "cur[i := jb]"] Cons.prems rest by auto
  have "map (\<lambda>j. if j \<in> set is then fst (hj_joinBlock ops (data (hjs ! j)) (cur[i := jb] ! j))
                          else cur[i := jb] ! j) [0..<length (cur[i := jb])]
        = map (\<lambda>j. if j \<in> set (i # is) then fst (hj_joinBlock ops (data (hjs ! j)) (cur ! j))
                          else cur ! j) [0..<length cur]"
    using i jb by (intro nth_equalityI) (auto simp: nth_list_update)
  with ih ok i jb show ?case by (simp add: Let_def)
qed

lemma probe_shards_Inl:
  assumes "distinct is" and "set is \<subseteq> {0..<length cur}" and "length cur \<le> length hjs"
    and "\<exists>i\<in>set is. leftover_nonempty ops hjs cur i"
  shows "probe_shards ops is hjs cur = Inl (Exception LOGICAL_ERROR ''not_processed should be empty'')"
  using assms
proof (induction "is" arbitrary: cur)
  case Nil
  then show ?case by simp
next
  case (Cons i "is")
  obtain jb ex where jb: "hj_joinBlock ops (data (hjs ! i)) (cur ! i) = (jb, ex)"
    by (cases "hj_joinBlock ops (data (hjs ! i)) (cur ! i)")
  from Cons.prems have i: "i < length cur" "i < length hjs" "i \<notin> set is" by auto
  show ?case
  proof (cases "leftover_nonempty ops hjs cur i")
    case True
    with jb i show ?thesis by (simp add: leftover_nonempty_def Let_def)
  next
    case False
    with Cons.prems obtain j where j: "j \<in> set is" "leftover_nonempty ops hjs cur j" by auto
    with i have "j \<noteq> i" by auto
    with j have "leftover_nonempty ops hjs (cur[i := jb]) j"
      by (simp add: leftover_nonempty_update)
    with j have "\<exists>j\<in>set is. leftover_nonempty ops hjs (cur[i := jb]) j" by blast
    with Cons.IH [of "cur[i := jb]"] Cons.prems have "probe_shards ops is hjs (cur[i := jb])
        = Inl (Exception LOGICAL_ERROR ''not_processed should be empty'')"
      by auto
    with False jb i show ?thesis by (simp add: leftover_nonempty_def Let_def)
  qed
qed

lemma probe_all_Inr:
  assumes "length dbs \<le> length hjs" and "\<forall>i<length dbs. \<not> leftover_nonempty ops hjs dbs i"
  shows "probe_shards ops [0..<length dbs] hjs dbs = Inr (shard_outputs ops hjs dbs)"
proof -
  have "probe_shards ops [0..<length dbs] hjs dbs
         = Inr (map (\<lambda>i. if i \<in> set [0..<length dbs] then fst (hj_joinBlock ops (data (hjs ! i)) (dbs ! i))
                          else dbs ! i) [0..<length dbs])"
    using assms by (intro probe_shards_Inr) auto
  moreover have "map (\<lambda>i. if i \<in> set [0..<length dbs] then fst (hj_joinBlock ops (data (hjs ! i)) (dbs ! i))
                          else dbs ! i) [0..<length dbs] = shard_outputs ops hjs dbs"
    unfolding shard_outputs_def by (intro nth_equalityI) auto
  ultimately show ?thesis by simp
qed

lemma probe_all_Inl:
  assumes "length dbs \<le> length hjs" and "\<exists>i<length dbs. leftover_nonempty ops hjs dbs i"
  shows "probe_shards ops [0..<length dbs] hjs dbs
         = Inl (Exception LOGICAL_ERROR ''not_processed should be empty'')"
  using assms by (intro probe_shards_Inl) auto

text \<open>
  C4. Take a coordinator of the constructed shape and a probe block that the dispatch
  accepts. If the probe of some shard leaves a not-processed block that is not empty,
  \<^verbatim>\<open>joinBlock\<close> throws the logical error and returns no result. If no shard leaves one,
  \<^verbatim>\<open>joinBlock\<close> returns a block, so no such error is raised.
\<close>

theorem joinBlock_not_processed:
  assumes "coordinator_invariant c"
    and "dispatchBlock h (dispatch_datas c ! 0) blk [] = Inr (fb, dbs)"
  shows "((\<exists>i < slots c. leftover_nonempty ops (hash_joins c) dbs i)
            \<longrightarrow> joinBlock ops h c blk = Inl (Exception LOGICAL_ERROR ''not_processed should be empty''))
     \<and> ((\<forall>i < slots c. \<not> leftover_nonempty ops (hash_joins c) dbs i)
            \<longrightarrow> (\<exists>out. joinBlock ops h c blk = Inr out))"
proof (intro conjI impI)
  from assms(1) have ne: "dispatch_datas c \<noteq> []" by (auto simp: coordinator_invariant_def)
  note d = coordinator_invariant_dispatch [OF assms(1) _ assms(2), simplified]
  from d(2) have len: "length dbs \<le> length (hash_joins c)" by simp
  {
    assume "\<exists>i < slots c. leftover_nonempty ops (hash_joins c) dbs i"
    with d(1) have "\<exists>i<length dbs. leftover_nonempty ops (hash_joins c) dbs i" by simp
    from probe_all_Inl [OF len this] assms(2) ne
    show "joinBlock ops h c blk = Inl (Exception LOGICAL_ERROR ''not_processed should be empty'')"
      by (simp add: joinBlock_def Let_def)
  }
  {
    assume "\<forall>i < slots c. \<not> leftover_nonempty ops (hash_joins c) dbs i"
    with d(1) have "\<forall>i<length dbs. \<not> leftover_nonempty ops (hash_joins c) dbs i" by simp
    from probe_all_Inr [OF len this] assms(2) d(3) ne
    show "\<exists>out. joinBlock ops h c blk = Inr out"
      by (simp add: joinBlock_def Let_def shard_outputs_def split: list.splits)
  }
qed

lemma example_join2_invariant: "coordinator_invariant example_join2"
  by code_simp

lemma example_dispatch_probe:
  "dispatchBlock example_hash (dispatch_datas example_join2 ! 0) example_block []
     = Inr (example_block @ map (hash_column example_hash 2 example_block [''k'']) [0..<2],
            example_dispatched)"
  by code_simp

theorem joinBlock_not_processed_witness:
  "(\<exists>out. joinBlock example_engine example_hash example_join2 example_block = Inr out)
   \<and> joinBlock leftover_engine example_hash example_join2 example_block
       = Inl (Exception LOGICAL_ERROR ''not_processed should be empty'')"
proof -
  have ok: "\<forall>i < slots example_join2.
              \<not> leftover_nonempty example_engine (hash_joins example_join2) example_dispatched i"
    by (simp add: leftover_nonempty_def example_engine_def)
  have "leftover_nonempty leftover_engine (hash_joins example_join2) example_dispatched 0"
    by code_simp
  moreover have "0 < slots example_join2" by (simp add: example_join2_def)
  ultimately have bad: "\<exists>i < slots example_join2.
              leftover_nonempty leftover_engine (hash_joins example_join2) example_dispatched i"
    by blast
  from joinBlock_not_processed [OF example_join2_invariant example_dispatch_probe, of example_engine]
       joinBlock_not_processed [OF example_join2_invariant example_dispatch_probe, of leftover_engine]
       ok bad
  show ?thesis by blast
qed

lemma append_column_length:
  "k \<le> length m \<Longrightarrow> length (append_column m k c) = max (length m) (Suc k)"
  by (auto simp: append_column_def Let_def)

lemma append_column_nth:
  assumes "k \<le> length m" and "p < max (length m) (Suc k)"
  shows "append_column m k c ! p
         = (if p = k then (if k < length m then m ! k else []) @ column c else m ! p)"
proof (cases "k < length m")
  case True
  with assms show ?thesis
    by (auto simp: append_column_def Let_def nth_list_update)
next
  case False
  with assms have "k = length m" by simp
  with assms show ?thesis
    by (auto simp: append_column_def Let_def nth_list_update nth_append)
qed

lemma append_block_upt:
  assumes "k \<le> length m" and "n \<le> length b"
  shows "append_block m b [k..<n]
         = map (\<lambda>p. (if p < length m then m ! p else [])
                       @ (if k \<le> p \<and> p < n then column (b ! p) else []))
             [0..<max (length m) n]"
  using assms
proof (induction "n - k" arbitrary: k m)
  case 0
  then have "max (length m) n = length m" by simp
  with 0 show ?case by (intro nth_equalityI) auto
next
  case (Suc d)
  then have kn: "k < n" by simp
  let ?m1 = "append_column m k (b ! k)"
  have len1: "length ?m1 = max (length m) (Suc k)"
    using Suc.prems by (simp add: append_column_length)
  have ih: "append_block ?m1 b [Suc k..<n]
         = map (\<lambda>p. (if p < length ?m1 then ?m1 ! p else [])
                       @ (if Suc k \<le> p \<and> p < n then column (b ! p) else []))
             [0..<max (length ?m1) n]"
    using Suc.hyps(2) Suc.prems len1 by (intro Suc.hyps(1)) auto
  have "map (\<lambda>p. (if p < length ?m1 then ?m1 ! p else [])
                       @ (if Suc k \<le> p \<and> p < n then column (b ! p) else []))
             [0..<max (length ?m1) n]
        = map (\<lambda>p. (if p < length m then m ! p else [])
                       @ (if k \<le> p \<and> p < n then column (b ! p) else []))
             [0..<max (length m) n]"
  proof (rule nth_equalityI)
    show "length (map (\<lambda>p. (if p < length ?m1 then ?m1 ! p else [])
                       @ (if Suc k \<le> p \<and> p < n then column (b ! p) else []))
             [0..<max (length ?m1) n])
        = length (map (\<lambda>p. (if p < length m then m ! p else [])
                       @ (if k \<le> p \<and> p < n then column (b ! p) else []))
             [0..<max (length m) n])"
      using kn len1 by simp
  next
    fix p
    assume "p < length (map (\<lambda>p. (if p < length ?m1 then ?m1 ! p else [])
                       @ (if Suc k \<le> p \<and> p < n then column (b ! p) else []))
             [0..<max (length ?m1) n])"
    then have p: "p < max (length m) n" using kn len1 by simp
    have nth1: "p < max (length m) (Suc k) \<Longrightarrow> ?m1 ! p
         = (if p = k then (if k < length m then m ! k else []) @ column (b ! k) else m ! p)"
      using Suc.prems(1) by (rule append_column_nth)
    show "map (\<lambda>p. (if p < length ?m1 then ?m1 ! p else [])
                       @ (if Suc k \<le> p \<and> p < n then column (b ! p) else []))
             [0..<max (length ?m1) n] ! p
        = map (\<lambda>p. (if p < length m then m ! p else [])
                       @ (if k \<le> p \<and> p < n then column (b ! p) else []))
             [0..<max (length m) n] ! p"
    proof -
      consider "p < k" | "p = k" | "k < p" by linarith
      then show ?thesis
      proof cases
        case 1
        with p kn len1 nth1 Suc.prems(1) show ?thesis by (auto simp: max_def split: if_splits)
      next
        case 2
        with p kn len1 nth1 Suc.prems(1) show ?thesis by (auto simp: max_def split: if_splits)
      next
        case 3
        with p kn len1 nth1 Suc.prems(1) show ?thesis by (auto simp: max_def split: if_splits)
      qed
    qed
  qed
  with ih kn show ?case by (simp add: upt_conv_Cons)
qed

lemma append_block_whole:
  "append_block m b [0..<length b]
     = map (\<lambda>p. (if p < length m then m ! p else []) @ (if p < length b then column (b ! p) else []))
         [0..<max (length m) (length b)]"
  using append_block_upt [of 0 m "length b" b] by simp

lemma fold_append_block_length:
  "length m \<le> length (fold (\<lambda>b m. append_block m b [0..<length b]) bs m)
   \<and> (\<forall>b\<in>set bs. length b \<le> length (fold (\<lambda>b m. append_block m b [0..<length b]) bs m))"
proof (induction bs arbitrary: m)
  case Nil
  then show ?case by simp
next
  case (Cons b bs)
  have "length (append_block m b [0..<length b]) = max (length m) (length b)"
    by (simp add: append_block_whole)
  with Cons [of "append_block m b [0..<length b]"] show ?case by auto
qed

lemma fold_append_block_nth:
  assumes "p < length (fold (\<lambda>b m. append_block m b [0..<length b]) bs m)"
  shows "fold (\<lambda>b m. append_block m b [0..<length b]) bs m ! p
         = (if p < length m then m ! p else []) @ shard_column_concat bs p"
  using assms
proof (induction bs arbitrary: m)
  case Nil
  then show ?case by (simp add: shard_column_concat_def)
next
  case (Cons b bs)
  let ?m1 = "append_block m b [0..<length b]"
  have len1: "length ?m1 = max (length m) (length b)" by (simp add: append_block_whole)
  from Cons.prems have p: "p < length (fold (\<lambda>b m. append_block m b [0..<length b]) bs ?m1)"
    by simp
  have nth1: "p < length ?m1 \<Longrightarrow> ?m1 ! p
     = (if p < length m then m ! p else []) @ (if p < length b then column (b ! p) else [])"
    by (simp add: append_block_whole)
  have "fold (\<lambda>b m. append_block m b [0..<length b]) (b # bs) m ! p
        = (if p < length ?m1 then ?m1 ! p else []) @ shard_column_concat bs p"
    using Cons.IH [OF p] by simp
  also have "\<dots> = (if p < length m then m ! p else []) @ shard_column_concat (b # bs) p"
    using nth1 len1 by (auto simp: shard_column_concat_def)
  finally show ?case .
qed

lemma collect_columns_nth:
  assumes "b \<in> set bs" and "p < length b"
  shows "p < length (collect_columns bs) \<and> collect_columns bs ! p = shard_column_concat bs p"
proof -
  from fold_append_block_length [of "[]" bs] assms
  have p: "p < length (collect_columns bs)" unfolding collect_columns_def by force
  with fold_append_block_nth [of p bs "[]"] show ?thesis
    unfolding collect_columns_def by simp
qed

lemma final_columns_of_first:
  assumes "b \<in> set bs"
  shows "final_columns_of (getNamesAndTypesList b) (collect_columns bs)
         = map (\<lambda>p. \<lparr>column = shard_column_concat bs p, type = type (b ! p), name = name (b ! p)\<rparr>)
             [0..<length b]"
  unfolding final_columns_of_def getNamesAndTypesList_def
  using collect_columns_nth [OF assms]
  by (intro nth_equalityI) simp_all

lemma probe_shards_in_range:
  "probe_shards ops is hjs cur = Inr res \<Longrightarrow> \<forall>i\<in>set is. i < length hjs"
  by (induction "is" arbitrary: cur) (auto simp: Let_def split: if_splits prod.splits)

lemma probe_shards_no_leftover:
  "probe_shards ops is hjs cur = Inr res \<Longrightarrow> distinct is
     \<Longrightarrow> \<forall>i\<in>set is. \<not> leftover_nonempty ops hjs cur i"
proof (induction "is" arbitrary: cur)
  case Nil
  then show ?case by simp
next
  case (Cons i "is")
  obtain jb ex where jb: "hj_joinBlock ops (data (hjs ! i)) (cur ! i) = (jb, ex)"
    by (cases "hj_joinBlock ops (data (hjs ! i)) (cur ! i)")
  from Cons.prems jb have ok: "\<not> leftover_nonempty ops hjs cur i"
    and rest: "probe_shards ops is hjs (cur[i := jb]) = Inr res"
    by (auto simp: Let_def leftover_nonempty_def split: if_splits)
  from Cons.IH [OF rest] Cons.prems have "\<forall>j\<in>set is. \<not> leftover_nonempty ops hjs (cur[i := jb]) j"
    by simp
  moreover have "\<forall>j\<in>set is. j \<noteq> i" using Cons.prems by auto
  ultimately have "\<forall>j\<in>set is. \<not> leftover_nonempty ops hjs cur j"
    by (simp add: leftover_nonempty_update)
  with ok show ?case by simp
qed

lemma joinBlock_Inr:
  assumes "joinBlock ops h c blk = Inr out"
    and "dispatchBlock h (dispatch_datas c ! 0) blk [] = Inr (fb, dbs)"
  shows "shard_outputs ops (hash_joins c) dbs \<noteq> []"
    and "out = final_columns_of (getNamesAndTypesList (shard_outputs ops (hash_joins c) dbs ! 0))
                 (collect_columns (shard_outputs ops (hash_joins c) dbs))"
    and "\<forall>i<length dbs. \<not> leftover_nonempty ops (hash_joins c) dbs i"
proof -
  from assms obtain res where res: "probe_shards ops [0..<length dbs] (hash_joins c) dbs = Inr res"
    and out: "res \<noteq> []" "out = final_columns_of (getNamesAndTypesList (res ! 0)) (collect_columns res)"
    by (auto simp: joinBlock_def Let_def split: if_splits sum.splits list.splits)
  from probe_shards_in_range [OF res] have "\<forall>i<length dbs. i < length (hash_joins c)" by simp
  then have len: "length dbs \<le> length (hash_joins c)"
    by (metis not_less order_refl)
  from probe_shards_no_leftover [OF res]
  show nl: "\<forall>i<length dbs. \<not> leftover_nonempty ops (hash_joins c) dbs i" by simp
  from probe_all_Inr [OF len nl] res have "res = shard_outputs ops (hash_joins c) dbs" by simp
  with out show "shard_outputs ops (hash_joins c) dbs \<noteq> []"
    and "out = final_columns_of (getNamesAndTypesList (shard_outputs ops (hash_joins c) dbs ! 0))
                 (collect_columns (shard_outputs ops (hash_joins c) dbs))"
    by simp_all
qed

text \<open>
  C5. When \<^verbatim>\<open>joinBlock\<close> returns a block, its columns have the names and types of the
  output block of shard 0, in the same positions, and the column at each position is
  the concatenation, in shard order \<open>0..N-1\<close>, of the columns the shards' output blocks
  have at that position, each kept in its own row order. When all output blocks have
  as many columns as the result, every shard contributes to every position.
\<close>

theorem joinBlock_concatenates:
  assumes "joinBlock ops h c blk = Inr out"
    and "dispatchBlock h (dispatch_datas c ! 0) blk [] = Inr (fb, dbs)"
  shows "shard_outputs ops (hash_joins c) dbs \<noteq> []
     \<and> map name out = map name (shard_outputs ops (hash_joins c) dbs ! 0)
     \<and> map type out = map type (shard_outputs ops (hash_joins c) dbs ! 0)
     \<and> (\<forall>p<length out. column (out ! p) = shard_column_concat (shard_outputs ops (hash_joins c) dbs) p)
     \<and> ((\<forall>b\<in>set (shard_outputs ops (hash_joins c) dbs). length b = length out)
          \<longrightarrow> (\<forall>p<length out. column (out ! p)
                  = concat (map (\<lambda>b. column (b ! p)) (shard_outputs ops (hash_joins c) dbs))))"
proof -
  let ?outs = "shard_outputs ops (hash_joins c) dbs"
  note j = joinBlock_Inr [OF assms]
  from j(1) have first: "?outs ! 0 \<in> set ?outs" by (simp add: nth_mem)
  have out: "out = map (\<lambda>p. \<lparr>column = shard_column_concat ?outs p, type = type (?outs ! 0 ! p),
                               name = name (?outs ! 0 ! p)\<rparr>) [0..<length (?outs ! 0)]"
    using j(2) final_columns_of_first [OF first] by simp
  have names: "map name out = map name (?outs ! 0)"
    by (subst out) (intro nth_equalityI, simp_all)
  have types: "map type out = map type (?outs ! 0)"
    by (subst out) (intro nth_equalityI, simp_all)
  have cols: "\<forall>p<length out. column (out ! p) = shard_column_concat ?outs p"
  proof (intro allI impI)
    fix p assume "p < length out"
    then have "p < length (?outs ! 0)" using names by (metis length_map)
    then show "column (out ! p) = shard_column_concat ?outs p" by (subst out) simp
  qed
  have hom: "(\<forall>b\<in>set ?outs. length b = length out)
          \<longrightarrow> (\<forall>p<length out. column (out ! p) = concat (map (\<lambda>b. column (b ! p)) ?outs))"
  proof (intro impI allI)
    fix p assume h: "\<forall>b\<in>set ?outs. length b = length out" and p: "p < length out"
    then have "filter (\<lambda>b. p < length b) ?outs = ?outs" by (simp add: filter_id_conv)
    with cols p show "column (out ! p) = concat (map (\<lambda>b. column (b ! p)) ?outs)"
      by (simp add: shard_column_concat_def)
  qed
  from j(1) names types cols hom show ?thesis by blast
qed

theorem joinBlock_concatenates_witness:
  "joinBlock example_engine example_hash example_join2 example_block = Inr example_joined
   \<and> map name example_joined
       = map name (shard_outputs example_engine (hash_joins example_join2) example_dispatched ! 0)
   \<and> column (example_joined ! 0)
       = concat (map (\<lambda>b. column (b ! 0))
           (shard_outputs example_engine (hash_joins example_join2) example_dispatched))
   \<and> shard_outputs example_engine (hash_joins example_join2) example_dispatched = example_dispatched"
proof -
  have j: "joinBlock example_engine example_hash example_join2 example_block = Inr example_joined"
    by code_simp
  have outs: "shard_outputs example_engine (hash_joins example_join2) example_dispatched
                = example_dispatched"
    by code_simp
  have hom: "\<forall>b\<in>set (shard_outputs example_engine (hash_joins example_join2) example_dispatched).
               length b = length example_joined"
    unfolding outs by code_simp
  have p: "0 < length example_joined" by (simp add: example_joined_def)
  from joinBlock_concatenates [OF j example_dispatch_probe] hom p j outs
  show ?thesis by blast
qed

subsection \<open>The build path\<close>

lemma locked_insert_traced_events:
  "snd (locked_insert_traced ops hj b chk) = [Locked, Inserted True, Unlocked]"
  by (simp add: locked_insert_traced_def Let_def)

lemma locked_insert_traced_eq:
  "locked_insert_traced ops hj b chk = (locked_insert ops hj b chk, [Locked, Inserted True, Unlocked])"
  by (simp add: locked_insert_def locked_insert_traced_def Let_def)



lemma inserted_shards_append:
  "inserted_shards (xs @ ys) = inserted_shards xs @ inserted_shards ys"
  by (induction xs rule: inserted_shards.induct) simp_all

lemma lock_events_append: "lock_events (xs @ ys) = lock_events xs @ lock_events ys"
  by (simp add: lock_events_def)

lemma trace_guarded_insert:
  "map (Pair i) [Locked, Inserted True, Unlocked] = guarded_insert i"
  "inserted_shards (guarded_insert i) = [i]"
  "lock_events (guarded_insert i) = guarded_insert i"
  "inserted_shards [(i, TryLockFailed)] = []"
  "lock_events [(i, TryLockFailed)] = []"
  by (simp_all add: guarded_insert_def lock_events_def)

lemma guarded_trace_step:
  "guarded_trace tr \<Longrightarrow> guarded_trace (tr @ guarded_insert i)"
  "guarded_trace tr \<Longrightarrow> guarded_trace (tr @ [(i, TryLockFailed)])"
  by (simp_all add: guarded_trace_def lock_events_append inserted_shards_append trace_guarded_insert)

lemma scan_pending_step:
  assumes "distinct pend" and "set pend \<subseteq> {0..<length hjs}"
    and "scan_pending ops try_lock dbs chk t pend hjs tr = (t', pend', hjs', tr')"
  shows "t' = t + length pend \<and> distinct pend' \<and> set pend' \<subseteq> set pend
     \<and> length hjs' = length hjs
     \<and> (\<forall>i<length hjs. hjs' ! i
           = (if i \<in> set pend \<and> i \<notin> set pend'
              then locked_insert ops (hjs ! i) (dbs ! i) chk else hjs ! i))"
  using assms
proof (induction pend arbitrary: t hjs tr t' pend' hjs' tr')
  case Nil
  then show ?case by simp
next
  case (Cons i rest)
  from Cons.prems have i: "i < length hjs" "i \<notin> set rest" "distinct rest"
    "set rest \<subseteq> {0..<length hjs}" by auto
  show ?case
  proof (cases "try_lock_succeeds try_lock t i (hjs ! i)")
    case True
    let ?h1 = "hjs[i := locked_insert ops (hjs ! i) (dbs ! i) chk]"
    from True Cons.prems(3)
    have sc: "scan_pending ops try_lock dbs chk (Suc t) rest ?h1 (tr @ guarded_insert i)
                = (t', pend', hjs', tr')"
      by (simp add: locked_insert_traced_eq guarded_insert_def)
    from i have "set rest \<subseteq> {0..<length ?h1}" by simp
    from Cons.IH [OF i(3) this sc]
    have ih: "t' = Suc t + length rest" "distinct pend'" "set pend' \<subseteq> set rest"
      "length hjs' = length ?h1"
      "\<forall>j<length ?h1. hjs' ! j
           = (if j \<in> set rest \<and> j \<notin> set pend'
              then locked_insert ops (?h1 ! j) (dbs ! j) chk else ?h1 ! j)"
      by auto
    have "\<forall>j<length hjs. hjs' ! j
           = (if j \<in> set (i # rest) \<and> j \<notin> set pend'
              then locked_insert ops (hjs ! j) (dbs ! j) chk else hjs ! j)"
    proof (intro allI impI)
      fix j assume j: "j < length hjs"
      show "hjs' ! j = (if j \<in> set (i # rest) \<and> j \<notin> set pend'
              then locked_insert ops (hjs ! j) (dbs ! j) chk else hjs ! j)"
      proof (cases "j = i")
        case True
        with ih(3,5) i j show ?thesis by auto
      next
        case False
        with ih(5) j show ?thesis by simp
      qed
    qed
    with ih show ?thesis by auto
  next
    case False
    obtain t1 p1 h1 tr1 where sc: "scan_pending ops try_lock dbs chk (Suc t) rest hjs
        (tr @ [(i, TryLockFailed)]) = (t1, p1, h1, tr1)"
      by (cases "scan_pending ops try_lock dbs chk (Suc t) rest hjs (tr @ [(i, TryLockFailed)])") auto
    with False Cons.prems(3) have eq: "t' = t1" "pend' = i # p1" "hjs' = h1" by auto
    from Cons.IH [OF i(3,4) sc]
    have ih: "t1 = Suc t + length rest" "distinct p1" "set p1 \<subseteq> set rest"
      "length h1 = length hjs"
      "\<forall>j<length hjs. h1 ! j
           = (if j \<in> set rest \<and> j \<notin> set p1
              then locked_insert ops (hjs ! j) (dbs ! j) chk else hjs ! j)"
      by auto
    have "\<forall>j<length hjs. h1 ! j
           = (if j \<in> set (i # rest) \<and> j \<notin> set (i # p1)
              then locked_insert ops (hjs ! j) (dbs ! j) chk else hjs ! j)"
      using ih(5) i by auto
    with ih eq i show ?thesis by auto
  qed
qed

lemma scan_pending_trace:
  assumes "distinct pend"
    and "scan_pending ops try_lock dbs chk t pend hjs tr = (t', pend', hjs', tr')"
    and "guarded_trace tr" and "distinct (inserted_shards tr)"
    and "set (inserted_shards tr) \<inter> set pend = {}"
  shows "guarded_trace tr' \<and> distinct (inserted_shards tr')
     \<and> set (inserted_shards tr') = set (inserted_shards tr) \<union> (set pend - set pend')
     \<and> set pend' \<subseteq> set pend"
  using assms
proof (induction pend arbitrary: t hjs tr t' pend' hjs' tr')
  case Nil
  then show ?case by simp
next
  case (Cons i rest)
  from Cons.prems have i: "i \<notin> set rest" "distinct rest" "i \<notin> set (inserted_shards tr)"
    "set (inserted_shards tr) \<inter> set rest = {}" by auto
  show ?case
  proof (cases "try_lock_succeeds try_lock t i (hjs ! i)")
    case True
    let ?h1 = "hjs[i := locked_insert ops (hjs ! i) (dbs ! i) chk]"
    let ?tr1 = "tr @ guarded_insert i"
    from True Cons.prems(2)
    have sc: "scan_pending ops try_lock dbs chk (Suc t) rest ?h1 ?tr1 = (t', pend', hjs', tr')"
      by (simp add: locked_insert_traced_eq guarded_insert_def)
    have ins1: "inserted_shards ?tr1 = inserted_shards tr @ [i]"
      by (simp add: inserted_shards_append trace_guarded_insert)
    have g1: "guarded_trace ?tr1" using Cons.prems(3) by (rule guarded_trace_step)
    have d1: "distinct (inserted_shards ?tr1)" using Cons.prems(4) i by (simp add: ins1)
    have x1: "set (inserted_shards ?tr1) \<inter> set rest = {}" using i by (auto simp: ins1)
    from Cons.IH [OF i(2) sc g1 d1 x1]
    have ih: "guarded_trace tr'" "distinct (inserted_shards tr')"
      "set (inserted_shards tr') = set (inserted_shards ?tr1) \<union> (set rest - set pend')"
      "set pend' \<subseteq> set rest"
      by auto
    from ih(3,4) i have "set (inserted_shards tr')
        = set (inserted_shards tr) \<union> (set (i # rest) - set pend')"
      by (auto simp: ins1)
    with ih show ?thesis by auto
  next
    case False
    let ?tr1 = "tr @ [(i, TryLockFailed)]"
    obtain t1 p1 h1 tr1 where sc: "scan_pending ops try_lock dbs chk (Suc t) rest hjs ?tr1
        = (t1, p1, h1, tr1)"
      by (cases "scan_pending ops try_lock dbs chk (Suc t) rest hjs ?tr1") auto
    with False Cons.prems(2) have eq: "pend' = i # p1" "tr' = tr1" by auto
    have ins1: "inserted_shards ?tr1 = inserted_shards tr"
      by (simp add: inserted_shards_append)
    have g1: "guarded_trace ?tr1" using Cons.prems(3) by (rule guarded_trace_step)
    from Cons.IH [OF i(2) sc g1] Cons.prems(4) i
    have ih: "guarded_trace tr1" "distinct (inserted_shards tr1)"
      "set (inserted_shards tr1) = set (inserted_shards tr) \<union> (set rest - set p1)"
      "set p1 \<subseteq> set rest"
      by (auto simp: ins1)
    from ih(3,4) i have "set (inserted_shards tr1)
        = set (inserted_shards tr) \<union> (set (i # rest) - set (i # p1))"
      by auto
    with ih eq show ?thesis by auto
  qed
qed




lemma insert_pending_result:
  assumes "insert_pending ops try_lock dbs chk t pend hjs tr = Some res"
  shows "distinct pend \<longrightarrow> set pend \<subseteq> {0..<length hjs} \<longrightarrow> guarded_trace tr
     \<longrightarrow> distinct (inserted_shards tr) \<longrightarrow> set (inserted_shards tr) \<inter> set pend = {}
     \<longrightarrow> fst res = [] \<and> length (fst (snd res)) = length hjs
        \<and> (\<forall>i<length hjs. fst (snd res) ! i
              = (if i \<in> set pend then locked_insert ops (hjs ! i) (dbs ! i) chk else hjs ! i))
        \<and> guarded_trace (snd (snd res)) \<and> distinct (inserted_shards (snd (snd res)))
        \<and> set (inserted_shards (snd (snd res))) = set (inserted_shards tr) \<union> set pend"
  using assms
proof (induction ops try_lock dbs chk t pend hjs tr res
    rule: insert_pending.raw_induct [rotated 1, consumes 1])
  case (1 loop ops try_lock dbs chk t pend hjs tr res)
  show ?case
  proof (intro impI)
    assume dist: "distinct pend" and sub: "set pend \<subseteq> {0..<length hjs}"
      and g: "guarded_trace tr" and di: "distinct (inserted_shards tr)"
      and dj: "set (inserted_shards tr) \<inter> set pend = {}"
    show "fst res = [] \<and> length (fst (snd res)) = length hjs
        \<and> (\<forall>i<length hjs. fst (snd res) ! i
              = (if i \<in> set pend then locked_insert ops (hjs ! i) (dbs ! i) chk else hjs ! i))
        \<and> guarded_trace (snd (snd res)) \<and> distinct (inserted_shards (snd (snd res)))
        \<and> set (inserted_shards (snd (snd res))) = set (inserted_shards tr) \<union> set pend"
    proof (cases "pend = []")
      case True
      with 1(2) g di show ?thesis by auto
    next
      case False
      obtain t' pend' hjs' tr' where
        sc: "scan_pending ops try_lock dbs chk t pend hjs tr = (t', pend', hjs', tr')"
        by (cases "scan_pending ops try_lock dbs chk t pend hjs tr") auto
      with False 1(2) have rec: "loop ops try_lock dbs chk t' pend' hjs' tr' = Some res" by simp
      from scan_pending_step [OF dist sub sc]
      have dp: "distinct pend'" and ss: "set pend' \<subseteq> set pend"
        and len: "length hjs' = length hjs"
        and h': "\<forall>i<length hjs. hjs' ! i
           = (if i \<in> set pend \<and> i \<notin> set pend'
              then locked_insert ops (hjs ! i) (dbs ! i) chk else hjs ! i)"
        by blast+
      from scan_pending_trace [OF dist sc g di dj]
      have g': "guarded_trace tr'" and di': "distinct (inserted_shards tr')"
        and set': "set (inserted_shards tr') = set (inserted_shards tr) \<union> (set pend - set pend')"
        by blast+
      from set' dj ss have dj': "set (inserted_shards tr') \<inter> set pend' = {}" by auto
      from ss sub len have sub': "set pend' \<subseteq> {0..<length hjs'}" by simp
      from 1(1) [OF rec] dp sub' g' di' dj'
      have r: "fst res = [] \<and> length (fst (snd res)) = length hjs'
        \<and> (\<forall>i<length hjs'. fst (snd res) ! i
              = (if i \<in> set pend' then locked_insert ops (hjs' ! i) (dbs ! i) chk else hjs' ! i))
        \<and> guarded_trace (snd (snd res)) \<and> distinct (inserted_shards (snd (snd res)))
        \<and> set (inserted_shards (snd (snd res))) = set (inserted_shards tr') \<union> set pend'"
        by blast
      have "\<forall>i<length hjs. fst (snd res) ! i
              = (if i \<in> set pend then locked_insert ops (hjs ! i) (dbs ! i) chk else hjs ! i)"
      proof (intro allI impI)
        fix i assume i: "i < length hjs"
        with h' have hi: "hjs' ! i = (if i \<in> set pend \<and> i \<notin> set pend'
              then locked_insert ops (hjs ! i) (dbs ! i) chk else hjs ! i)" by blast
        from i len r have ri: "fst (snd res) ! i
              = (if i \<in> set pend' then locked_insert ops (hjs' ! i) (dbs ! i) chk else hjs' ! i)"
          by simp
        show "fst (snd res) ! i
              = (if i \<in> set pend then locked_insert ops (hjs ! i) (dbs ! i) chk else hjs ! i)"
        proof (cases "i \<in> set pend'")
          case True
          with ss have "i \<in> set pend" by blast
          with True hi ri show ?thesis by simp
        next
          case False
          with hi ri show ?thesis by simp
        qed
      qed
      moreover from r set' ss
      have "set (inserted_shards (snd (snd res))) = set (inserted_shards tr) \<union> set pend"
        by auto
      ultimately show ?thesis using r len by simp
    qed
  qed
qed











subsection \<open>The number of shards\<close>

lemma insert_pending_length:
  assumes "insert_pending ops try_lock dbs chk 0 [0..<length dbs] hjs [] = Some (pend, hjs', tr)"
    and "length dbs \<le> length hjs"
  shows "length hjs' = length hjs"
  using insert_pending_result [OF assms(1)] assms(2)
  by (simp add: guarded_trace_def lock_events_def)

lemma addJoinedBlock_frame:
  assumes "addJoinedBlock ops h try_lock c blk chk = Some (c', r)"
  shows "slots c' = slots c" and "length (hash_joins c') = length (hash_joins c)"
    and "dispatch_datas c' = dispatch_datas c" and "table_join c' = table_join c"
    and "totals c' = totals c"
proof -
  have "slots c' = slots c \<and> length (hash_joins c') = length (hash_joins c)
      \<and> dispatch_datas c' = dispatch_datas c \<and> table_join c' = table_join c \<and> totals c' = totals c"
  proof (cases "length (dispatch_datas c) < 2")
    case True
    with assms show ?thesis by (simp add: addJoinedBlock_def addJoinedBlock_traced_def)
  next
    case two: False
    show ?thesis
    proof (cases "dispatchBlock h (dispatch_datas c ! 1) blk []")
      case (Inl x)
      with two assms show ?thesis by (simp add: addJoinedBlock_def addJoinedBlock_traced_def Let_def)
    next
      case (Inr p)
      obtain fb dbs where p: "p = (fb, dbs)" by (cases p)
      show ?thesis
      proof (cases "length (hash_joins c) < length dbs")
        case True
        with two Inr p assms show ?thesis by (simp add: addJoinedBlock_def addJoinedBlock_traced_def Let_def)
      next
        case False
        with two Inr p assms obtain pend hjs' tr where
          res: "insert_pending ops try_lock dbs chk 0 [0..<length dbs] (hash_joins c) [] = Some (pend, hjs', tr)"
          and c': "c' = c\<lparr>hash_joins := hjs'\<rparr>"
          by (auto simp: addJoinedBlock_def addJoinedBlock_traced_def Let_def split: option.splits prod.splits if_splits)
        from False have "length dbs \<le> length (hash_joins c)" by simp
        from insert_pending_length [OF res this] c' show ?thesis by simp
      qed
    qed
  qed
  then show "slots c' = slots c" and "length (hash_joins c') = length (hash_joins c)"
    and "dispatch_datas c' = dispatch_datas c" and "table_join c' = table_join c"
    and "totals c' = totals c"
    by simp_all
qed
lemma ConcurrentHashJoin_new_succeeds:
  assumes "0 < n" and "getClauses tj \<noteq> []"
  shows "\<exists>c. ConcurrentHashJoin_new ops tj n l r a = Inr c"
  using assms
  by (cases "getClauses tj") (simp_all add: ConcurrentHashJoin_new_def Let_def split: prod.splits)

lemma ConcurrentHashJoin_new_invariant:
  assumes "ConcurrentHashJoin_new ops tj n l r a = Inr c"
  shows "coordinator_invariant c"
  using ConcurrentHashJoin_new_Inr(1,2,5) [OF assms]
  by (simp add: coordinator_invariant_def ConcurrentHashJoin_new_Inr(7) [OF assms]
      buildHashExpressionAction_def func_ast_children_def)

text \<open>
  C8. The constructor called with zero slots throws \<^verbatim>\<open>BAD_ARGUMENTS\<close> and yields no
  coordinator, hence no shard. Called with \<open>n \<ge> 1\<close> slots for a join that has an ON
  clause (the constructor reads the first one), it succeeds with exactly \<open>n\<close> shards,
  each holding an engine of its own, freshly made, and an unlocked mutex. Neither
  \<^verbatim>\<open>setTotals\<close> nor \<^verbatim>\<open>addJoinedBlock\<close> changes the number of slots or of shards, and
  \<^verbatim>\<open>joinBlock\<close> returns a block only: the count is fixed for the coordinator's life.
\<close>

theorem ConcurrentHashJoin_new_shards:
  "ConcurrentHashJoin_new ops tj 0 l r a = Inl (Exception BAD_ARGUMENTS ''Invalid argument slot : 0'')
   \<and> (0 < n \<and> getClauses tj \<noteq> []
        \<longrightarrow> (\<exists>c. ConcurrentHashJoin_new ops tj n l r a = Inr c))
   \<and> (\<forall>c. ConcurrentHashJoin_new ops tj n l r a = Inr c
        \<longrightarrow> 0 < n \<and> slots c = n \<and> length (hash_joins c) = n
            \<and> (\<forall>i<n. hash_joins c ! i = \<lparr>mutex = False, data = hj_new ops tj r a\<rparr>)
            \<and> coordinator_invariant c)
   \<and> (\<forall>c blk. slots (setTotals c blk) = slots c
          \<and> length (hash_joins (setTotals c blk)) = length (hash_joins c))
   \<and> (\<forall>c blk chk c' res. addJoinedBlock ops h try_lock c blk chk = Some (c', res)
        \<longrightarrow> slots c' = slots c \<and> length (hash_joins c') = length (hash_joins c))"
proof -
  have zero: "ConcurrentHashJoin_new ops tj 0 l r a
                = Inl (Exception BAD_ARGUMENTS ''Invalid argument slot : 0'')"
    by (simp add: ConcurrentHashJoin_new_def)
  have ok: "0 < n \<and> getClauses tj \<noteq> [] \<longrightarrow> (\<exists>c. ConcurrentHashJoin_new ops tj n l r a = Inr c)"
    using ConcurrentHashJoin_new_succeeds [of n tj ops l r a] by blast
  have shape: "\<forall>c. ConcurrentHashJoin_new ops tj n l r a = Inr c
        \<longrightarrow> 0 < n \<and> slots c = n \<and> length (hash_joins c) = n
            \<and> (\<forall>i<n. hash_joins c ! i = \<lparr>mutex = False, data = hj_new ops tj r a\<rparr>)
            \<and> coordinator_invariant c"
  proof (intro allI impI)
    fix c assume c: "ConcurrentHashJoin_new ops tj n l r a = Inr c"
    from ConcurrentHashJoin_new_Inr(1,2,5) [OF c] ConcurrentHashJoin_new_invariant [OF c]
    show "0 < n \<and> slots c = n \<and> length (hash_joins c) = n
            \<and> (\<forall>i<n. hash_joins c ! i = \<lparr>mutex = False, data = hj_new ops tj r a\<rparr>)
            \<and> coordinator_invariant c"
      by simp
  qed
  have tot: "\<forall>c blk. slots (setTotals c blk) = slots c
          \<and> length (hash_joins (setTotals c blk)) = length (hash_joins c)"
    by (simp add: setTotals_def)
  have add: "\<forall>c blk chk c' res. addJoinedBlock ops h try_lock c blk chk = Some (c', res)
        \<longrightarrow> slots c' = slots c \<and> length (hash_joins c') = length (hash_joins c)"
    using addJoinedBlock_frame(1,2) by blast
  from zero ok shape tot add show ?thesis by blast
qed

theorem ConcurrentHashJoin_new_shards_witness:
  "ConcurrentHashJoin_new example_engine (example_table_join Kind_Inner Strictness_All) 0 [] [] False
     = Inl (Exception BAD_ARGUMENTS ''Invalid argument slot : 0'')
   \<and> ConcurrentHashJoin_new example_engine (example_table_join Kind_Inner Strictness_All) 2 [] [] False
     = Inr example_join2
   \<and> slots example_join2 = 2 \<and> length (hash_joins example_join2) = 2
   \<and> slots example_after1 = slots example_join2
   \<and> length (hash_joins example_after1) = length (hash_joins example_join2)"
proof -
  have c: "ConcurrentHashJoin_new example_engine (example_table_join Kind_Inner Strictness_All) 2 [] [] False
             = Inr example_join2"
    by code_simp
  have a: "addJoinedBlock example_engine example_hash (\<lambda>t i. True) example_join2 example_row1 False
             = Some (example_after1, Inr True)"
    by code_simp
  from ConcurrentHashJoin_new_shards [of example_engine "example_table_join Kind_Inner Strictness_All"
      "[]" "[]" False 2 example_hash "\<lambda>t i. True"] c a
  show ?thesis by blast
qed

end
